theory Spec2Isabelle
  imports Complex_Main "HOL-Library.Multiset"
begin

section \<open>Numbers\<close>

text \<open>
  The source computes with JavaScript \<open>number\<close>s.  Keyframe times, positions and the
  total duration are modelled as exact reals: rounding error and overflow of doubles
  are outside this development, and signed zero is not distinguished.  A division is
  the one operation that produces a non-finite value from finite operands, so every
  value that passes through a division whose divisor can be zero (a merged speed, a
  gradient offset, a pixel coordinate) is a \<open>jsnum\<close>: a finite real, an infinity or
  NaN, with the arithmetic and comparisons of the language written out.
\<close>

datatype jsnum = Fin real | PInf | NInf | NaN

fun js_add :: "jsnum \<Rightarrow> jsnum \<Rightarrow> jsnum" where
  "js_add (Fin x) (Fin y) = Fin (x + y)"
| "js_add NaN _ = NaN"
| "js_add _ NaN = NaN"
| "js_add PInf NInf = NaN"
| "js_add NInf PInf = NaN"
| "js_add PInf _ = PInf"
| "js_add _ PInf = PInf"
| "js_add NInf _ = NInf"
| "js_add _ NInf = NInf"

fun js_mul :: "jsnum \<Rightarrow> jsnum \<Rightarrow> jsnum" where
  "js_mul (Fin x) (Fin y) = Fin (x * y)"
| "js_mul NaN _ = NaN"
| "js_mul _ NaN = NaN"
| "js_mul (Fin x) PInf = (if 0 < x then PInf else if x < 0 then NInf else NaN)"
| "js_mul (Fin x) NInf = (if 0 < x then NInf else if x < 0 then PInf else NaN)"
| "js_mul PInf (Fin y) = (if 0 < y then PInf else if y < 0 then NInf else NaN)"
| "js_mul NInf (Fin y) = (if 0 < y then NInf else if y < 0 then PInf else NaN)"
| "js_mul PInf PInf = PInf"
| "js_mul NInf NInf = PInf"
| "js_mul PInf NInf = NInf"
| "js_mul NInf PInf = NInf"

text \<open>
  The reals have one zero, and a zero divisor counts as \<open>+0\<close>; in the source a
  divisor \<open>-0\<close> gives the opposite infinity.  The divisors of the source that can be
  zero are a sum of two spans, which is \<open>+0\<close> when it is zero, and the duration.  A
  duration of 0 stands for \<open>+0\<close>.
\<close>

fun js_div :: "jsnum \<Rightarrow> jsnum \<Rightarrow> jsnum" where
  "js_div (Fin x) (Fin y) =
     (if y \<noteq> 0 then Fin (x / y)
      else if 0 < x then PInf else if x < 0 then NInf else NaN)"
| "js_div NaN _ = NaN"
| "js_div _ NaN = NaN"
| "js_div (Fin x) PInf = Fin 0"
| "js_div (Fin x) NInf = Fin 0"
| "js_div PInf (Fin y) = (if 0 \<le> y then PInf else NInf)"
| "js_div NInf (Fin y) = (if 0 \<le> y then NInf else PInf)"
| "js_div PInf PInf = NaN"
| "js_div PInf NInf = NaN"
| "js_div NInf PInf = NaN"
| "js_div NInf NInf = NaN"

text \<open>Strict equality \<open>===\<close>: NaN is equal to nothing, itself included.\<close>

fun js_eq :: "jsnum \<Rightarrow> jsnum \<Rightarrow> bool" where
  "js_eq (Fin x) (Fin y) = (x = y)"
| "js_eq PInf PInf = True"
| "js_eq NInf NInf = True"
| "js_eq _ _ = False"

text \<open>The comparisons \<open><=\<close> and \<open>>=\<close>: false as soon as an operand is NaN.\<close>

fun js_le :: "jsnum \<Rightarrow> jsnum \<Rightarrow> bool" where
  "js_le (Fin x) (Fin y) = (x \<le> y)"
| "js_le NaN _ = False"
| "js_le _ NaN = False"
| "js_le NInf _ = True"
| "js_le _ PInf = True"
| "js_le _ _ = False"

definition js_ge :: "jsnum \<Rightarrow> jsnum \<Rightarrow> bool" where
  "js_ge x y = js_le y x"

text \<open>\<open>Math.min\<close> and \<open>Math.max\<close> of two numbers: NaN if either is NaN.\<close>

definition js_min :: "jsnum \<Rightarrow> jsnum \<Rightarrow> jsnum" where
  "js_min x y = (if x = NaN \<or> y = NaN then NaN else if js_le x y then x else y)"

definition js_max :: "jsnum \<Rightarrow> jsnum \<Rightarrow> jsnum" where
  "js_max x y = (if x = NaN \<or> y = NaN then NaN else if js_le x y then y else x)"

text \<open>
  \<open>const round = (x: number) => +x.toFixed(2)\<close>.  \<open>toFixed(2)\<close> takes the integer
  \<open>n\<close> with \<open>n / 100\<close> nearest to the magnitude of \<open>x\<close>, the larger one on a tie, and
  puts the sign back; from \<open>10^21\<close> on, and on a non-finite value, it prints the number
  itself, which the unary plus reads back.

  The source rounds the double, \<open>round2\<close> the exact value.  The two agree except where
  the exact value is a tie between two hundredths, or within the rounding error of a
  double of one: the quotient \<open>15 / 1000\<close> is a double just below the tie, printed as
  0.01, while \<open>round2\<close> gives 0.02.  The statements on offsets below therefore use
  values that are far from a tie, the monotonicity of the rounding, or the distance of
  at most \<open>1 / 200\<close> between a value and its rounding, which hold for both.
\<close>

definition round2 :: "real \<Rightarrow> real" where
  "round2 x =
     (if 10 ^ 21 \<le> \<bar>x\<bar> then x
      else sgn x * real_of_int \<lfloor>\<bar>x\<bar> * 100 + 1 / 2\<rfloor> / 100)"

fun js_round :: "jsnum \<Rightarrow> jsnum" where
  "js_round (Fin x) = Fin (round2 x)"
| "js_round v = v"

text \<open>
  \<open>~~x\<close> is ToInt32: truncate towards zero, then wrap into the signed 32-bit range.
  A non-finite operand cannot arise where the source applies it.
\<close>

definition toInt32 :: "real \<Rightarrow> int" where
  "toInt32 x =
     (let t = (if 0 \<le> x then \<lfloor>x\<rfloor> else \<lceil>x\<rceil>)
      in (t + 2 ^ 31) mod 2 ^ 32 - 2 ^ 31)"

section \<open>Keyframes and speed-tagged segments\<close>

text \<open>
  Modelled from the spec: the class \<open>FunAction\<close> is imported from another module.  It
  is the spec's Keyframe, a time \<open>at\<close> in milliseconds and a position \<open>pos\<close>, and its
  constructor stores the two fields it is given.  The field \<open>at\<close> is named \<open>at_ms\<close>
  here.
\<close>

record FunAction =
  at_ms :: real
  pos :: real

text \<open>A line is the tuple \<open>[a, b, speed]\<close> of the source.\<close>

type_synonym line = "FunAction \<times> FunAction \<times> jsnum"

definition line_start :: "line \<Rightarrow> real" where
  "line_start e = at_ms (fst e)"

definition line_end :: "line \<Rightarrow> real" where
  "line_end e = at_ms (fst (snd e))"

definition line_speed :: "line \<Rightarrow> jsnum" where
  "line_speed e = snd (snd e)"

text \<open>
  Modelled from the spec: \<open>lerp\<close> is imported from \<open>utils/misc\<close>; the spec calls it the
  linear interpolation between two values at a fractional offset.
\<close>

definition lerp :: "real \<Rightarrow> real \<Rightarrow> real \<Rightarrow> real" where
  "lerp a b t = a + (b - a) * t"

section \<open>Gradient synthesis: \<open>toSvgBackgroundGradient\<close>\<close>

subsection \<open>The expander (the \<open>flatMap\<close> callback)\<close>

text \<open>
  \<open>Array.from({ length: N }, f)\<close> calls \<open>f\<close> at the indices \<open>0 .. N - 1\<close>, and at none
  when \<open>N\<close> is zero or negative.
\<close>

definition expand_line :: "line \<Rightarrow> line list" where
  "expand_line e =
     (case e of (a, b, s) \<Rightarrow>
        let len = at_ms b - at_ms a in
        if len \<le> 0 then []
        else if len < 2000 then [e]
        else
          let N = toInt32 ((len - 500) / 1000) in
          map (\<lambda>i.
                (\<lparr>at_ms = lerp (at_ms a) (at_ms b) (real i / real_of_int N),
                  pos = lerp (pos a) (pos b) (real i / real_of_int N)\<rparr>,
                 \<lparr>at_ms = lerp (at_ms a) (at_ms b) (real (i + 1) / real_of_int N),
                  pos = lerp (pos a) (pos b) (real (i + 1) / real_of_int N)\<rparr>,
                 s))
              [0..<nat N])"

definition expand_lines :: "line list \<Rightarrow> line list" where
  "expand_lines ls = concat (map expand_line ls)"

subsection \<open>The merger (the \<open>for\<close> loop with \<open>splice\<close>)\<close>

definition merged_speed :: "line \<Rightarrow> line \<Rightarrow> jsnum" where
  "merged_speed e f =
     (case (e, f) of ((a, b, ab), (c, d, cd)) \<Rightarrow>
        js_div
          (js_add (js_mul ab (Fin (at_ms b - at_ms a)))
                  (js_mul cd (Fin (at_ms d - at_ms c))))
          (Fin ((at_ms b - at_ms a) + (at_ms d - at_ms c))))"

text \<open>
  The loop state is the index \<open>i\<close> and the array.  After a merge the source decrements
  \<open>i\<close> and the loop header increments it again, so the next iteration runs at the same
  index on the spliced array.
\<close>

function merge_loop :: "nat \<Rightarrow> line list \<Rightarrow> line list" where
  "merge_loop i ls =
     (if i + 1 < length ls then
        (if line_end (ls ! (i + 1)) - line_start (ls ! i) < 1000 then
           merge_loop i
             (take i ls
              @ [(fst (ls ! i), fst (snd (ls ! (i + 1))), merged_speed (ls ! i) (ls ! (i + 1)))]
              @ drop (i + 2) ls)
         else merge_loop (i + 1) ls)
      else ls)"
  by pat_completeness auto
termination
  by (relation "measure (\<lambda>(i, ls). 2 * length ls - i)") auto

subsection \<open>The redundancy filter (both \<open>filter\<close> callbacks)\<close>

text \<open>
  The callback reads its neighbours \<open>a[i - 1]\<close> and \<open>a[i + 1]\<close> in the array being
  filtered; an index out of range reads \<open>undefined\<close>, and the entry is kept.
\<close>

definition keep_entry :: "('a \<Rightarrow> jsnum) \<Rightarrow> 'a list \<Rightarrow> nat \<Rightarrow> bool" where
  "keep_entry speed a i =
     (if i = 0 \<or> length a \<le> i + 1 then True
      else if js_eq (speed (a ! (i - 1))) (speed (a ! i))
              \<and> js_eq (speed (a ! i)) (speed (a ! (i + 1))) then False
      else True)"

definition redundancy_filter :: "('a \<Rightarrow> jsnum) \<Rightarrow> 'a list \<Rightarrow> 'a list" where
  "redundancy_filter speed a =
     map fst (filter (\<lambda>(e, i). keep_entry speed a i) (zip a [0..<length a]))"

subsection \<open>Stops\<close>

record stop =
  stop_at :: real
  stop_speed :: jsnum

definition mid_stop :: "line \<Rightarrow> stop" where
  "mid_stop e = \<lparr>stop_at = (line_start e + line_end e) / 2, stop_speed = line_speed e\<rparr>"

definition add_boundary_stops :: "line list \<Rightarrow> real \<Rightarrow> stop list \<Rightarrow> stop list" where
  "add_boundary_stops ls durationMs stops =
     (if ls \<noteq> [] then
        let first = hd ls; lst = last ls;
            stops = \<lparr>stop_at = line_start first, stop_speed = line_speed first\<rparr> # stops;
            stops = (if line_start first > 100
                     then \<lparr>stop_at = line_start first - 100, stop_speed = Fin 0\<rparr> # stops
                     else stops);
            stops = stops @ [\<lparr>stop_at = line_end lst, stop_speed = line_speed lst\<rparr>];
            stops = (if line_end lst < durationMs - 100
                     then stops @ [\<lparr>stop_at = line_end lst + 100, stop_speed = Fin 0\<rparr>]
                     else stops)
        in stops
      else stops)"

text \<open>
  \<open>gradient_stops\<close> is the value of the variable \<open>stops\<close> when the template string is
  built.  The argument \<open>zigzag\<close> is \<open>actionsToLines(actionsToZigzag(script.actions))\<close>,
  computed by two imported functions.
\<close>

definition gradient_stops :: "line list \<Rightarrow> real \<Rightarrow> stop list" where
  "gradient_stops zigzag durationMs =
     (let ls = merge_loop 0 (expand_lines zigzag);
          stops = map mid_stop (redundancy_filter line_speed ls);
          stops = add_boundary_stops ls durationMs stops
      in redundancy_filter stop_speed stops)"

text \<open>
  The function returns the markup of a \<open><linearGradient>\<close>; it is modelled by the
  list of its \<open><stop>\<close> elements, without the id that is copied into the markup.  A
  \<open><stop>\<close> has its offset, its colour and, below speed 100, its opacity.
  \<open>speedToHexCached\<close> is imported; it is a parameter here.
\<close>

record gradient_stop =
  offset :: jsnum
  stop_color :: string
  stop_opacity :: "jsnum option"

definition render_stop :: "(jsnum \<Rightarrow> string) \<Rightarrow> real \<Rightarrow> stop \<Rightarrow> gradient_stop" where
  "render_stop speedToHexCached durationMs s =
     \<lparr>offset = js_round (js_max (Fin 0) (js_min (Fin 1) (js_div (Fin (stop_at s)) (Fin durationMs)))),
      stop_color = speedToHexCached (stop_speed s),
      stop_opacity = (if js_ge (stop_speed s) (Fin 100) then None
                      else Some (js_round (js_div (stop_speed s) (Fin 100))))\<rparr>"

definition toSvgBackgroundGradient ::
  "(jsnum \<Rightarrow> string) \<Rightarrow> line list \<Rightarrow> real \<Rightarrow> gradient_stop list" where
  "toSvgBackgroundGradient speedToHexCached zigzag durationMs =
     map (render_stop speedToHexCached durationMs) (gradient_stops zigzag durationMs)"

section \<open>Stroke paths: \<open>toSvgLines\<close>\<close>

text \<open>
  \<open>Array.prototype.sort\<close> with a comparator is a stable sort: \<open>x\<close> stays before \<open>y\<close>
  unless the comparator is positive on them.  The comparator of the source is the
  difference of two speeds.  Here the speeds are finite reals, for which it is
  consistent; on NaN the order the sort produces is implementation-defined.
\<close>

type_synonym speed_line = "FunAction \<times> FunAction \<times> real"

fun insert_by :: "('a \<Rightarrow> 'a \<Rightarrow> real) \<Rightarrow> 'a \<Rightarrow> 'a list \<Rightarrow> 'a list" where
  "insert_by cmp x [] = [x]"
| "insert_by cmp x (y # ys) =
     (if cmp x y \<le> 0 then x # y # ys else y # insert_by cmp x ys)"

definition js_sort :: "('a \<Rightarrow> 'a \<Rightarrow> real) \<Rightarrow> 'a list \<Rightarrow> 'a list" where
  "js_sort cmp xs = foldr (insert_by cmp) xs []"

text \<open>
  The destructured arguments \<open>ops\<close> (\<open>lineWidth\<close>, \<open>mergeLimit\<close>, \<open>durationMs\<close>) and
  \<open>ctx\<close> (\<open>width\<close>, \<open>height\<close>).
\<close>

record svg_lines_ops =
  ops_lineWidth :: real
  ops_mergeLimit :: real
  ops_durationMs :: real

record svg_ctx =
  ctx_width :: real
  ctx_height :: real

text \<open>One \<open><path>\<close> element: \<open>M x y L x y\<close> and the stroke colour.\<close>

record svg_path =
  move_to :: "jsnum \<times> jsnum"
  line_to :: "jsnum \<times> jsnum"
  stroke :: string

definition stroke_x :: "svg_lines_ops \<Rightarrow> svg_ctx \<Rightarrow> FunAction \<Rightarrow> jsnum" where
  "stroke_x ops ctx a =
     js_round (js_add (js_mul (js_div (Fin (at_ms a)) (Fin (ops_durationMs ops)))
                              (Fin (ctx_width ctx - 2 * ops_lineWidth ops)))
                      (Fin (ops_lineWidth ops)))"

definition stroke_y :: "svg_lines_ops \<Rightarrow> svg_ctx \<Rightarrow> FunAction \<Rightarrow> jsnum" where
  "stroke_y ops ctx a =
     js_round (Fin ((100 - pos a) * (ctx_height ctx - 2 * ops_lineWidth ops) / 100 + ops_lineWidth ops))"

definition lineToStroke ::
  "svg_lines_ops \<Rightarrow> svg_ctx \<Rightarrow> FunAction \<Rightarrow> FunAction \<Rightarrow> (jsnum \<times> jsnum) \<times> (jsnum \<times> jsnum)" where
  "lineToStroke ops ctx a b =
     ((stroke_x ops ctx a, stroke_y ops ctx a), (stroke_x ops ctx b, stroke_y ops ctx b))"

definition line_path :: "(real \<Rightarrow> string) \<Rightarrow> svg_lines_ops \<Rightarrow> svg_ctx \<Rightarrow> speed_line \<Rightarrow> svg_path" where
  "line_path speedToHexCached ops ctx e =
     (case e of (a, b, speed) \<Rightarrow>
        \<lparr>move_to = fst (lineToStroke ops ctx a b),
         line_to = snd (lineToStroke ops ctx a b),
         stroke = speedToHexCached speed\<rparr>)"

text \<open>
  The argument \<open>lines\<close> is the array after \<open>mergeLinesSpeed(lines, mergeLimit)\<close>; that
  function and \<open>actionsToLines\<close> are imported.
\<close>

definition toSvgLines ::
  "(real \<Rightarrow> string) \<Rightarrow> svg_lines_ops \<Rightarrow> svg_ctx \<Rightarrow> speed_line list \<Rightarrow> svg_path list" where
  "toSvgLines speedToHexCached ops ctx lines =
     map (line_path speedToHexCached ops ctx)
         (js_sort (\<lambda>a b. snd (snd a) - snd (snd b)) lines)"

section \<open>Auxiliary notions for the statements\<close>

text \<open>
  The redundancy filter as a left-to-right pass that carries the previous entry of the
  unfiltered list; it is shown equal to \<open>redundancy_filter\<close> below.
\<close>

fun filter_pass :: "('a \<Rightarrow> jsnum) \<Rightarrow> 'a option \<Rightarrow> 'a list \<Rightarrow> 'a list" where
  "filter_pass speed p [] = []"
| "filter_pass speed p [e] = [e]"
| "filter_pass speed None (e # n # r) = e # filter_pass speed (Some e) (n # r)"
| "filter_pass speed (Some p) (e # n # r) =
     (if js_eq (speed p) (speed e) \<and> js_eq (speed e) (speed n)
      then filter_pass speed (Some e) (n # r)
      else e # filter_pass speed (Some e) (n # r))"

text \<open>
  The maximal runs of a list: consecutive entries stay in one run as long as each has
  the speed of the next (under \<open>===\<close>).
\<close>

fun runs :: "('a \<Rightarrow> jsnum) \<Rightarrow> 'a list \<Rightarrow> 'a list list" where
  "runs speed [] = []"
| "runs speed (x # xs) =
     (case runs speed xs of
        [] \<Rightarrow> [[x]]
      | r # rs \<Rightarrow> if js_eq (speed x) (speed (hd r)) then (x # r) # rs else [x] # r # rs)"

text \<open>A run of two or more entries reduced to its first and its last entry.\<close>

definition run_ends :: "'a list \<Rightarrow> 'a list" where
  "run_ends r = (if 2 \<le> length r then [hd r, last r] else r)"

text \<open>
  Segments ordered ascending by time: no segment ends before it starts, and every
  segment ends no later than each later segment starts.
\<close>

definition time_ordered :: "line list \<Rightarrow> bool" where
  "time_ordered ls \<longleftrightarrow>
     (\<forall>e \<in> set ls. line_start e \<le> line_end e)
     \<and> sorted_wrt (\<lambda>e f. line_end e \<le> line_start f) ls"

section \<open>Strict equality on numbers\<close>

lemma js_eq_sym: "js_eq x y \<Longrightarrow> js_eq y x"
  by (cases x; cases y) auto

lemma js_eq_trans: "js_eq x y \<Longrightarrow> js_eq y z \<Longrightarrow> js_eq x z"
  by (cases x; cases y; cases z) auto


section \<open>The redundancy filter as a pass over the list\<close>

lemma filter_zip_shift:
  "map fst (filter (\<lambda>(e, i). keep_entry speed (pre @ xs) i)
                   (zip xs [length pre..<length pre + length xs]))
   = filter_pass speed (if pre = [] then None else Some (last pre)) xs"
proof (induction xs arbitrary: pre)
  case Nil
  then show ?case by simp
next
  case (Cons e r)
  have upt: "[length pre..<length pre + length (e # r)]
      = length pre # [length (pre @ [e])..<length (pre @ [e]) + length r]"
    by (subst upt_conv_Cons) simp_all
  have IH: "map fst (filter (\<lambda>(x, i). keep_entry speed (pre @ e # r) i)
                (zip r [length (pre @ [e])..<length (pre @ [e]) + length r]))
     = filter_pass speed (Some e) r"
    using Cons.IH [of "pre @ [e]"] by simp
  show ?case
  proof (cases r)
    case Nil
    then show ?thesis by (simp add: keep_entry_def)
  next
    case (Cons n r')
    have k: "keep_entry speed (pre @ e # r) (length pre) \<longleftrightarrow>
        \<not> (pre \<noteq> [] \<and> js_eq (speed (last pre)) (speed e) \<and> js_eq (speed e) (speed n))"
      using Cons by (cases pre rule: rev_cases) (auto simp: keep_entry_def nth_append)
    show ?thesis
      unfolding upt using IH k Cons by (cases pre rule: rev_cases) auto
  qed
qed

lemma redundancy_filter_pass: "redundancy_filter speed xs = filter_pass speed None xs"
  using filter_zip_shift [of speed "[]" xs] by (simp add: redundancy_filter_def)

section \<open>Runs\<close>

lemma run_ends_simps [simp]:
  "run_ends [] = []" "run_ends [x] = [x]" "run_ends (x # y # r) = [x, last (y # r)]"
  by (simp_all add: run_ends_def)

lemma run_ends_idem: "run_ends (run_ends r) = run_ends r"
  by (simp add: run_ends_def)

lemma length_run_ends: "length (run_ends r) \<le> 2"
  by (simp add: run_ends_def)

lemma runs_Cons_ne: "runs speed (x # xs) \<noteq> []"
  by (simp split: list.splits)

lemma hd_runs: "runs speed (x # xs) = r # rs \<Longrightarrow> r \<noteq> [] \<and> hd r = x"
  by (auto split: list.splits if_splits)

lemma runs_step:
  "runs speed (x # y # ys) =
     (if js_eq (speed x) (speed y)
      then (x # hd (runs speed (y # ys))) # tl (runs speed (y # ys))
      else [x] # runs speed (y # ys))"
proof -
  obtain r rs where R: "runs speed (y # ys) = r # rs"
    using runs_Cons_ne [of speed y ys] by (cases "runs speed (y # ys)") auto
  then have "hd r = y" using hd_runs by fastforce
  with R show ?thesis
    by (subst runs.simps(2)) simp
qed

lemma runs_single: "runs speed [x] = [[x]]"
  by simp

declare runs.simps(2) [simp del]

lemma concat_runs: "concat (runs speed xs) = xs"
proof (induction xs rule: induct_list012)
  case (3 x y zs)
  obtain r rs where R: "runs speed (y # zs) = r # rs"
    using runs_Cons_ne [of speed y zs] by (cases "runs speed (y # zs)") auto
  with 3 show ?case by (simp add: runs_step)
qed (simp_all add: runs_single)

lemma ends_runs_Cons:
  "concat (map run_ends (runs speed (x # xs)))
   = x # tl (concat (map run_ends (runs speed (x # xs))))"
proof -
  obtain r rs where R: "runs speed (x # xs) = r # rs"
    using runs_Cons_ne [of speed x xs] by (cases "runs speed (x # xs)") auto
  then have "r \<noteq> []" "hd r = x" using hd_runs by fastforce+
  then obtain r' where "r = x # r'" by (cases r) auto
  with R show ?thesis by (cases r') simp_all
qed

lemma ends_runs_step:
  "concat (map run_ends (runs speed (x # y # ys))) =
     (if js_eq (speed x) (speed y)
      then (if ys \<noteq> [] \<and> js_eq (speed y) (speed (hd ys))
            then x # tl (concat (map run_ends (runs speed (y # ys))))
            else x # concat (map run_ends (runs speed (y # ys))))
      else x # concat (map run_ends (runs speed (y # ys))))"
proof (cases ys)
  case Nil
  then show ?thesis by (simp add: runs_step runs_single)
next
  case (Cons z zs)
  obtain r rs where R: "runs speed (z # zs) = r # rs"
    using runs_Cons_ne [of speed z zs] by (cases "runs speed (z # zs)") auto
  then have "r \<noteq> []" "hd r = z" using hd_runs by fastforce+
  then obtain r' where r: "r = z # r'" by (cases r) auto
  show ?thesis
    unfolding Cons by (simp add: runs_step [of speed x] runs_step [of speed y] R r)
qed

lemma filter_pass_Some_runs:
  "filter_pass speed (Some p) (e # xs)
   = tl (concat (map run_ends (runs speed (p # e # xs))))"
proof (induction xs arbitrary: p e)
  case Nil
  then show ?case by (simp add: ends_runs_step runs_single)
next
  case (Cons n r)
  have IH: "filter_pass speed (Some e) (n # r)
      = tl (concat (map run_ends (runs speed (e # n # r))))"
    by (rule Cons.IH)
  have hd: "concat (map run_ends (runs speed (e # n # r)))
      = e # tl (concat (map run_ends (runs speed (e # n # r))))"
    by (rule ends_runs_Cons)
  show ?case
  proof (cases "js_eq (speed p) (speed e)")
    case True
    then show ?thesis
      using IH by (simp add: ends_runs_step [of speed p] ends_runs_step [of speed e])
  next
    case False
    then show ?thesis
      using IH hd by (simp add: ends_runs_step [of speed p])
  qed
qed

lemma filter_pass_None_runs:
  "filter_pass speed None xs = concat (map run_ends (runs speed xs))"
proof (induction xs rule: induct_list012)
  case (3 e n r)
  have "filter_pass speed None (e # n # r)
      = e # tl (concat (map run_ends (runs speed (e # n # r))))"
    by (simp add: filter_pass_Some_runs)
  then show ?case using ends_runs_Cons [of speed e "n # r"] by simp
qed (simp_all add: runs_single)

lemma redundancy_filter_runs:
  "redundancy_filter speed xs = concat (map run_ends (runs speed xs))"
  by (simp add: redundancy_filter_pass filter_pass_None_runs)

lemma runs_two_inv:
  assumes "runs speed (y # l # T) = [y, l] # M"
  shows "js_eq (speed y) (speed l) \<and> runs speed (l # T) = [l] # M"
proof -
  obtain r rs where R: "runs speed (l # T) = r # rs"
    using runs_Cons_ne [of speed l T] by (cases "runs speed (l # T)") auto
  from assms show ?thesis
    by (auto simp: runs_step [of speed y] R split: if_splits)
qed

lemma runs_ends_runs:
  "runs speed (concat (map run_ends (runs speed xs))) = map run_ends (runs speed xs)"
proof (induction xs rule: induct_list012)
  case 1
  then show ?case by simp
next
  case (2 x)
  then show ?case by (simp add: runs_single)
next
  case (3 x y ys)
  obtain r rs where R: "runs speed (y # ys) = r # rs"
    using runs_Cons_ne [of speed y ys] by (cases "runs speed (y # ys)") auto
  then have "r \<noteq> []" "hd r = y" using hd_runs by fastforce+
  then obtain r' where r: "r = y # r'" by (cases r) auto
  let ?M = "map run_ends rs"
  have IH: "runs speed (run_ends r @ concat ?M) = run_ends r # ?M"
    using "3.IH"(2) R by simp
  show ?case
  proof (cases "js_eq (speed x) (speed y)")
    case False
    obtain t where t: "run_ends r = y # t"
      using r by (cases r') simp_all
    show ?thesis
      using IH False
      by (simp add: runs_step [of speed x y ys] R runs_step [of speed x y "t @ concat ?M"] t)
  next
    case True
    show ?thesis
    proof (cases r')
      case Nil
      then show ?thesis
        using IH True by (simp add: runs_step [of speed x] R r)
    next
      case (Cons z zs)
      define l where "l = last r'"
      have re: "run_ends r = [y, l]" "run_ends (x # r) = [x, l]"
        using r Cons by (simp_all add: l_def)
      have "runs speed (y # l # concat ?M) = [y, l] # ?M"
        using IH re by simp
      then have yl: "js_eq (speed y) (speed l)"
        and L: "runs speed (l # concat ?M) = [l] # ?M"
        using runs_two_inv by fastforce+
      have xl: "js_eq (speed x) (speed l)"
        using True yl js_eq_trans by blast
      have "runs speed (x # y # ys) = (x # r) # rs"
        using True by (simp add: runs_step R)
      then show ?thesis
        using L xl re by (simp add: runs_step [of speed x l])
    qed
  qed
qed

lemma runs_filter_short:
  "r \<in> set (runs speed (redundancy_filter speed xs)) \<Longrightarrow> length r \<le> 2"
  by (auto simp: redundancy_filter_runs runs_ends_runs length_run_ends)



section \<open>The merge loop as a scan of the list\<close>

declare merge_loop.simps [simp del]

lemma merge_loop_Suc: "merge_loop (Suc i) (x # ls) = x # merge_loop i ls"
proof (induction i ls arbitrary: x rule: merge_loop.induct)
  case (1 i ls)
  show ?case
  proof (cases "i + 1 < length ls")
    case False
    then show ?thesis
      by (simp add: merge_loop.simps [of "Suc i"] merge_loop.simps [of i])
  next
    case True
    show ?thesis
    proof (cases "line_end (ls ! (i + 1)) - line_start (ls ! i) < 1000")
      case c: True
      show ?thesis
        using True c "1.IH"(1) [OF True c, of x]
        by (simp add: merge_loop.simps [of "Suc i" "x # ls"] merge_loop.simps [of i ls])
    next
      case c: False
      show ?thesis
        using True c "1.IH"(2) [OF True c, of x]
        by (simp add: merge_loop.simps [of "Suc i" "x # ls"] merge_loop.simps [of i ls])
    qed
  qed
qed

lemma merge_loop_Nil: "merge_loop 0 [] = []"
  by (simp add: merge_loop.simps)

lemma merge_loop_single: "merge_loop 0 [e] = [e]"
  by (simp add: merge_loop.simps)

lemma merge_loop_step:
  "merge_loop 0 (e # f # r) =
     (if line_end f - line_start e < 1000
      then merge_loop 0 ((fst e, fst (snd f), merged_speed e f) # r)
      else e # merge_loop 0 (f # r))"
  by (subst merge_loop.simps) (simp add: merge_loop_Suc)

section \<open>What the filter and the merger preserve\<close>

lemma filter_pass_subset: "set (filter_pass speed p xs) \<subseteq> set xs"
  by (induction speed p xs rule: filter_pass.induct) auto

lemma sorted_wrt_filter_pass:
  "sorted_wrt P xs \<Longrightarrow> sorted_wrt P (filter_pass speed p xs)"
proof (induction speed p xs rule: filter_pass.induct)
  case (3 speed e n r)
  then show ?case
    using filter_pass_subset [of speed "Some e" "n # r"] by auto
next
  case (4 speed p e n r)
  then show ?case
    using filter_pass_subset [of speed "Some e" "n # r"] by auto
qed simp_all

lemma filter_pass_Nil_iff: "filter_pass speed p xs = [] \<longleftrightarrow> xs = []"
  by (induction speed p xs rule: filter_pass.induct) auto

lemma last_filter_pass: "xs \<noteq> [] \<Longrightarrow> last (filter_pass speed p xs) = last xs"
  by (induction speed p xs rule: filter_pass.induct) (auto simp: filter_pass_Nil_iff)

lemma hd_filter_pass_None: "hd (filter_pass speed None xs) = hd xs"
  by (induction xs rule: induct_list012) auto

lemma redundancy_filter_Nil_iff: "redundancy_filter speed xs = [] \<longleftrightarrow> xs = []"
  by (simp add: redundancy_filter_pass filter_pass_Nil_iff)

lemma hd_redundancy_filter: "hd (redundancy_filter speed xs) = hd xs"
  by (simp add: redundancy_filter_pass hd_filter_pass_None)

lemma last_redundancy_filter: "xs \<noteq> [] \<Longrightarrow> last (redundancy_filter speed xs) = last xs"
  by (simp add: redundancy_filter_pass last_filter_pass)

lemma sorted_wrt_redundancy_filter:
  "sorted_wrt P xs \<Longrightarrow> sorted_wrt P (redundancy_filter speed xs)"
  by (simp add: redundancy_filter_pass sorted_wrt_filter_pass)

lemma set_redundancy_filter: "set (redundancy_filter speed xs) \<subseteq> set xs"
  by (simp add: redundancy_filter_pass filter_pass_subset)

lemma merge_scan_induct [case_names Nil single step]:
  assumes "P []" and "\<And>e. P [e]"
    and "\<And>e f r.
          (line_end f - line_start e < 1000 \<Longrightarrow> P ((fst e, fst (snd f), merged_speed e f) # r))
          \<Longrightarrow> (\<not> line_end f - line_start e < 1000 \<Longrightarrow> P (f # r))
          \<Longrightarrow> P (e # f # r)"
  shows "P ls"
proof (induction "length ls" arbitrary: ls rule: less_induct)
  case less
  show ?case
  proof (cases ls)
    case Nil
    then show ?thesis using assms(1) by simp
  next
    case (Cons e t)
    show ?thesis
    proof (cases t)
      case Nil
      with Cons show ?thesis using assms(2) by simp
    next
      case (Cons f r)
      with \<open>ls = e # t\<close> show ?thesis using assms(3) [of f e r] less by simp
    qed
  qed
qed

lemma merge_loop_Nil_iff: "merge_loop 0 ls = [] \<longleftrightarrow> ls = []"
  by (induction ls rule: merge_scan_induct)
     (simp_all add: merge_loop_Nil merge_loop_single merge_loop_step)

lemma hd_merge_loop: "line_start (hd (merge_loop 0 ls)) = line_start (hd ls)"
  by (induction ls rule: merge_scan_induct)
     (simp_all add: merge_loop_Nil merge_loop_single merge_loop_step line_start_def)

lemma last_merge_loop: "ls \<noteq> [] \<Longrightarrow> line_end (last (merge_loop 0 ls)) = line_end (last ls)"
  by (induction ls rule: merge_scan_induct)
     (auto simp: merge_loop_Nil merge_loop_single merge_loop_step line_end_def merge_loop_Nil_iff)

lemma merge_loop_starts:
  "\<forall>y \<in> set ls. c \<le> line_start y \<Longrightarrow> \<forall>x \<in> set (merge_loop 0 ls). c \<le> line_start x"
  by (induction ls rule: merge_scan_induct)
     (auto simp: merge_loop_Nil merge_loop_single merge_loop_step line_start_def)

lemma time_ordered_Cons:
  "time_ordered (e # ls) \<longleftrightarrow>
     line_start e \<le> line_end e \<and> (\<forall>f \<in> set ls. line_end e \<le> line_start f) \<and> time_ordered ls"
  by (auto simp: time_ordered_def)

lemma time_ordered_merge_loop: "time_ordered ls \<Longrightarrow> time_ordered (merge_loop 0 ls)"
proof (induction ls rule: merge_scan_induct)
  case Nil
  then show ?case by (simp add: merge_loop_Nil)
next
  case (single e)
  then show ?case by (simp add: merge_loop_single)
next
  case (step e f r)
  show ?case
  proof (cases "line_end f - line_start e < 1000")
    case True
    have "time_ordered ((fst e, fst (snd f), merged_speed e f) # r)"
      using step.prems by (auto simp: time_ordered_Cons line_start_def line_end_def)
    with True step.IH(1) show ?thesis by (simp add: merge_loop_step)
  next
    case False
    have "time_ordered (merge_loop 0 (f # r))"
      using step.prems step.IH(2) [OF False] by (simp add: time_ordered_Cons)
    moreover have "\<forall>x \<in> set (merge_loop 0 (f # r)). line_end e \<le> line_start x"
      using step.prems by (intro merge_loop_starts) (auto simp: time_ordered_Cons)
    ultimately show ?thesis
      using False step.prems by (simp add: merge_loop_step time_ordered_Cons)
  qed
qed

section \<open>The expander\<close>

lemma toInt32_floor: "0 \<le> x \<Longrightarrow> x < 2 ^ 31 \<Longrightarrow> toInt32 x = \<lfloor>x\<rfloor>"
proof -
  assume x: "0 \<le> x" "x < 2 ^ 31"
  have "0 \<le> \<lfloor>x\<rfloor>" using x by simp
  moreover have "\<lfloor>x\<rfloor> < 2 ^ 31"
  proof -
    have "\<lfloor>x\<rfloor> < 2147483648" using x by (simp add: floor_less_iff)
    then show ?thesis by simp
  qed
  ultimately show ?thesis
    using x by (simp add: toInt32_def)
qed

lemma expand_line_unfold:
  "expand_line (a, b, s) =
     (if at_ms b - at_ms a \<le> 0 then []
      else if at_ms b - at_ms a < 2000 then [(a, b, s)]
      else map (\<lambda>i.
                (\<lparr>at_ms = lerp (at_ms a) (at_ms b) (real i / real_of_int (toInt32 ((at_ms b - at_ms a - 500) / 1000))),
                  pos = lerp (pos a) (pos b) (real i / real_of_int (toInt32 ((at_ms b - at_ms a - 500) / 1000)))\<rparr>,
                 \<lparr>at_ms = lerp (at_ms a) (at_ms b) (real (i + 1) / real_of_int (toInt32 ((at_ms b - at_ms a - 500) / 1000))),
                  pos = lerp (pos a) (pos b) (real (i + 1) / real_of_int (toInt32 ((at_ms b - at_ms a - 500) / 1000)))\<rparr>,
                 s))
              [0..<nat (toInt32 ((at_ms b - at_ms a - 500) / 1000))])"
  by (simp add: expand_line_def Let_def)

lemma lerp_mono: "a \<le> b \<Longrightarrow> t \<le> u \<Longrightarrow> lerp a b t \<le> lerp a b u"
  by (simp add: lerp_def mult_left_mono)

lemma lerp_0: "lerp a b 0 = a" and lerp_1: "lerp a b 1 = b"
  by (simp_all add: lerp_def)

lemma frac_bounds:
  fixes N :: int
  assumes "i < nat N"
  shows "0 \<le> real i / real_of_int N" "real i / real_of_int N \<le> real (i + 1) / real_of_int N"
    "real (i + 1) / real_of_int N \<le> 1"
proof -
  have N: "0 < real_of_int N" using assms by simp
  show "0 \<le> real i / real_of_int N" using N by simp
  show "real i / real_of_int N \<le> real (i + 1) / real_of_int N"
    using N by (simp add: divide_right_mono)
  have "real (i + 1) \<le> real_of_int N" using assms by linarith
  then show "real (i + 1) / real_of_int N \<le> 1" using N by simp
qed

lemma frac_mono:
  fixes N :: int
  assumes "i < j" "j < nat N"
  shows "real (i + 1) / real_of_int N \<le> real j / real_of_int N"
proof -
  have N: "0 < real_of_int N" using assms by simp
  have "real (i + 1) \<le> real j" using assms by simp
  then show ?thesis using N by (simp add: divide_right_mono)
qed

lemma expand_line_within:
  assumes "x \<in> set (expand_line e)"
  shows "line_start e \<le> line_start x \<and> line_start x \<le> line_end x \<and> line_end x \<le> line_end e"
proof -
  obtain a b s where e: "e = (a, b, s)" by (cases e) auto
  show ?thesis
  proof (cases "at_ms b - at_ms a < 2000")
    case True
    with assms e show ?thesis
      by (auto simp: expand_line_unfold line_start_def line_end_def split: if_splits)
  next
    case False
    define N where "N = toInt32 ((at_ms b - at_ms a - 500) / 1000)"
    from assms e False obtain i where i: "i < nat N"
      and x: "x = (\<lparr>at_ms = lerp (at_ms a) (at_ms b) (real i / real_of_int N),
                  pos = lerp (pos a) (pos b) (real i / real_of_int N)\<rparr>,
                 \<lparr>at_ms = lerp (at_ms a) (at_ms b) (real (i + 1) / real_of_int N),
                  pos = lerp (pos a) (pos b) (real (i + 1) / real_of_int N)\<rparr>, s)"
      by (auto simp: expand_line_unfold N_def split: if_splits)
    have ab: "at_ms a \<le> at_ms b" using False by simp
    have "lerp (at_ms a) (at_ms b) 0 \<le> lerp (at_ms a) (at_ms b) (real i / real_of_int N)"
      using ab frac_bounds(1) [OF i] by (rule lerp_mono)
    moreover have "lerp (at_ms a) (at_ms b) (real i / real_of_int N)
        \<le> lerp (at_ms a) (at_ms b) (real (i + 1) / real_of_int N)"
      using ab frac_bounds(2) [OF i] by (rule lerp_mono)
    moreover have "lerp (at_ms a) (at_ms b) (real (i + 1) / real_of_int N) \<le> lerp (at_ms a) (at_ms b) 1"
      using ab frac_bounds(3) [OF i] by (rule lerp_mono)
    ultimately show ?thesis
      by (simp add: x e line_start_def line_end_def lerp_0 lerp_1)
  qed
qed

lemma expand_line_sorted:
  "sorted_wrt (\<lambda>x y. line_end x \<le> line_start y) (expand_line e)"
proof -
  obtain a b s where e: "e = (a, b, s)" by (cases e) auto
  show ?thesis
  proof (cases "at_ms b - at_ms a < 2000")
    case True
    then show ?thesis by (simp add: e expand_line_unfold)
  next
    case False
    define N where "N = toInt32 ((at_ms b - at_ms a - 500) / 1000)"
    have ab: "at_ms a \<le> at_ms b" using False by simp
    have "sorted_wrt (\<lambda>i j. lerp (at_ms a) (at_ms b) (real (i + 1) / real_of_int N)
                             \<le> lerp (at_ms a) (at_ms b) (real j / real_of_int N)) [0..<nat N]"
    proof (rule sorted_wrt_mono_rel [of _ "(<)"])
      fix i j assume "i \<in> set [0..<nat N]" "j \<in> set [0..<nat N]" "i < j"
      then show "lerp (at_ms a) (at_ms b) (real (i + 1) / real_of_int N)
                             \<le> lerp (at_ms a) (at_ms b) (real j / real_of_int N)"
        using ab by (intro lerp_mono frac_mono) auto
    qed simp
    then show ?thesis
      using False by (simp add: e expand_line_unfold sorted_wrt_map line_start_def line_end_def N_def)
  qed
qed

lemma time_ordered_append:
  "time_ordered (xs @ ys) \<longleftrightarrow>
     time_ordered xs \<and> time_ordered ys \<and> (\<forall>x \<in> set xs. \<forall>y \<in> set ys. line_end x \<le> line_start y)"
  by (auto simp: time_ordered_def sorted_wrt_append)

lemma expand_lines_Cons: "expand_lines (e # ls) = expand_line e @ expand_lines ls"
  by (simp add: expand_lines_def)

lemma expand_lines_starts:
  "\<forall>f \<in> set ls. c \<le> line_start f \<Longrightarrow> \<forall>y \<in> set (expand_lines ls). c \<le> line_start y"
  using expand_line_within by (fastforce simp: expand_lines_def)

lemma time_ordered_expand_lines: "time_ordered ls \<Longrightarrow> time_ordered (expand_lines ls)"
proof (induction ls)
  case Nil
  then show ?case by (simp add: expand_lines_def time_ordered_def)
next
  case (Cons e ls)
  have 1: "time_ordered (expand_line e)"
    using expand_line_sorted [of e] expand_line_within [of _ e]
    by (auto simp: time_ordered_def)
  have 2: "time_ordered (expand_lines ls)"
    using Cons by (simp add: time_ordered_Cons)
  have "\<forall>y \<in> set (expand_lines ls). line_end e \<le> line_start y"
    using Cons.prems by (intro expand_lines_starts) (simp add: time_ordered_Cons)
  then have 3: "\<forall>x \<in> set (expand_line e). \<forall>y \<in> set (expand_lines ls). line_end x \<le> line_start y"
    using expand_line_within [of _ e] by fastforce
  show ?case
    using 1 2 3 by (simp add: expand_lines_Cons time_ordered_append)
qed

section \<open>Stop times in ascending order\<close>

lemma time_ordered_bounds:
  "time_ordered ls \<Longrightarrow> e \<in> set ls \<Longrightarrow>
     line_start (hd ls) \<le> line_start e \<and> line_end e \<le> line_end (last ls)"
proof (induction ls)
  case Nil
  then show ?case by simp
next
  case (Cons x ls)
  show ?case
  proof (cases "ls = []")
    case True
    with Cons.prems show ?thesis by simp
  next
    case False
    then have l: "last ls \<in> set ls" by simp
    have xl: "line_end x \<le> line_end (last ls)"
      using Cons.prems(1) l by (fastforce simp: time_ordered_Cons time_ordered_def)
    show ?thesis
    proof (cases "e = x")
      case True
      with False xl show ?thesis by simp
    next
      case ne: False
      with Cons.prems have e: "e \<in> set ls" by simp
      then have "line_end e \<le> line_end (last ls)"
        using Cons.IH Cons.prems(1) by (simp add: time_ordered_Cons)
      moreover have "line_start x \<le> line_start e"
        using Cons.prems(1) e by (fastforce simp: time_ordered_Cons)
      ultimately show ?thesis using False by simp
    qed
  qed
qed

lemma time_ordered_redundancy_filter:
  "time_ordered ls \<Longrightarrow> time_ordered (redundancy_filter speed ls)"
  using set_redundancy_filter [of speed ls]
  by (auto simp: time_ordered_def sorted_wrt_redundancy_filter)

lemma mid_stop_bounds:
  "line_start e \<le> line_end e \<Longrightarrow>
     line_start e \<le> stop_at (mid_stop e) \<and> stop_at (mid_stop e) \<le> line_end e"
  by (simp add: mid_stop_def)

lemma mid_stops_sorted:
  assumes "time_ordered ls"
  shows "sorted_wrt (\<lambda>s t. stop_at s \<le> stop_at t) (map mid_stop ls)"
proof -
  have "sorted_wrt (\<lambda>x y. stop_at (mid_stop x) \<le> stop_at (mid_stop y)) ls"
  proof (rule sorted_wrt_mono_rel [of _ "\<lambda>e f. line_end e \<le> line_start f"])
    fix x y assume "x \<in> set ls" "y \<in> set ls" "line_end x \<le> line_start y"
    then show "stop_at (mid_stop x) \<le> stop_at (mid_stop y)"
      using assms mid_stop_bounds [of x] mid_stop_bounds [of y]
      by (fastforce simp: time_ordered_def)
  next
    show "sorted_wrt (\<lambda>e f. line_end e \<le> line_start f) ls"
      using assms by (simp add: time_ordered_def)
  qed
  then show ?thesis by (simp add: sorted_wrt_map)
qed

lemma add_boundary_stops_sorted:
  assumes ls: "time_ordered ls"
    and st: "sorted_wrt (\<lambda>s t. stop_at s \<le> stop_at t) stops"
    and bd: "\<forall>s \<in> set stops. line_start (hd ls) \<le> stop_at s \<and> stop_at s \<le> line_end (last ls)"
  shows "sorted_wrt (\<lambda>s t. stop_at s \<le> stop_at t) (add_boundary_stops ls duration stops)"
proof (cases "ls = []")
  case True
  with st show ?thesis by (simp add: add_boundary_stops_def)
next
  case False
  then have "hd ls \<in> set ls" by simp
  then have "line_start (hd ls) \<le> line_end (hd ls)" "line_end (hd ls) \<le> line_end (last ls)"
    using ls time_ordered_bounds [OF ls, of "hd ls"] by (auto simp: time_ordered_def)
  then have he: "line_start (hd ls) \<le> line_end (last ls)" by simp
  show ?thesis
    using False st bd he
    by (auto simp: add_boundary_stops_def Let_def sorted_wrt_append)
qed

lemma gradient_stops_sorted:
  assumes "time_ordered zigzag"
  shows "sorted_wrt (\<lambda>s t. stop_at s \<le> stop_at t) (gradient_stops zigzag duration)"
proof -
  define ls where "ls = merge_loop 0 (expand_lines zigzag)"
  have ls: "time_ordered ls"
    using assms by (simp add: ls_def time_ordered_expand_lines time_ordered_merge_loop)
  have fl: "time_ordered (redundancy_filter line_speed ls)"
    using ls by (rule time_ordered_redundancy_filter)
  have 1: "sorted_wrt (\<lambda>s t. stop_at s \<le> stop_at t) (map mid_stop (redundancy_filter line_speed ls))"
    using fl by (rule mid_stops_sorted)
  have 2: "\<forall>s \<in> set (map mid_stop (redundancy_filter line_speed ls)).
      line_start (hd ls) \<le> stop_at s \<and> stop_at s \<le> line_end (last ls)"
  proof
    fix s assume "s \<in> set (map mid_stop (redundancy_filter line_speed ls))"
    then obtain e where e: "e \<in> set ls" "s = mid_stop e"
      using set_redundancy_filter [of line_speed ls] by auto
    then have "line_start e \<le> line_end e" using ls by (simp add: time_ordered_def)
    then show "line_start (hd ls) \<le> stop_at s \<and> stop_at s \<le> line_end (last ls)"
      using time_ordered_bounds [OF ls e(1)] mid_stop_bounds [of e] e(2) by simp
  qed
  have "sorted_wrt (\<lambda>s t. stop_at s \<le> stop_at t)
          (add_boundary_stops ls duration (map mid_stop (redundancy_filter line_speed ls)))"
    using ls 1 2 by (rule add_boundary_stops_sorted)
  then show ?thesis
    by (simp add: gradient_stops_def Let_def ls_def sorted_wrt_redundancy_filter)
qed

lemma round2_unit: "0 \<le> x \<Longrightarrow> x \<le> 1 \<Longrightarrow> round2 x = real_of_int \<lfloor>x * 100 + 1 / 2\<rfloor> / 100"
proof -
  assume x: "0 \<le> x" "x \<le> 1"
  have small: "\<bar>x\<bar> < 10 ^ 21"
  proof -
    have "\<bar>x\<bar> \<le> 1" using x by simp
    also have "(1::real) < 10 ^ 21" by simp
    finally show ?thesis .
  qed
  show ?thesis
  proof (cases "x = 0")
    case True
    then show ?thesis by (simp add: round2_def)
  next
    case False
    with x have "sgn x = 1" by simp
    then show ?thesis using small x by (simp add: round2_def)
  qed
qed

lemma round2_mono: "0 \<le> x \<Longrightarrow> x \<le> y \<Longrightarrow> y \<le> 1 \<Longrightarrow> round2 x \<le> round2 y"
proof -
  assume a: "0 \<le> x" "x \<le> y" "y \<le> 1"
  have "\<lfloor>x * 100 + 1 / 2\<rfloor> \<le> \<lfloor>y * 100 + 1 / 2\<rfloor>"
    using a by (intro floor_mono) simp
  then show ?thesis
    using a by (simp add: round2_unit divide_right_mono)
qed

lemma offset_render_stop:
  "0 < duration \<Longrightarrow>
     offset (render_stop hex duration s) = Fin (round2 (max 0 (min 1 (stop_at s / duration))))"
  by (simp add: render_stop_def js_min_def js_max_def max_def min_def)

section \<open>The ends of the lists\<close>

lemma map_upt_ends:
  fixes f :: "nat \<Rightarrow> 'a"
  shows "hd (map f [0..<Suc m]) = f 0" "last (map f [0..<Suc m]) = f m"
proof -
  have "[0..<Suc m] = 0 # [1..<Suc m]" by (simp add: upt_conv_Cons del: upt_Suc)
  then show "hd (map f [0..<Suc m]) = f 0" by (simp del: upt_Suc)
  show "last (map f [0..<Suc m]) = f m" by simp
qed

lemma expand_line_ends:
  assumes "0 < line_end e - line_start e" "line_end e - line_start e < 2147483648500"
  shows "expand_line e \<noteq> [] \<and> line_start (hd (expand_line e)) = line_start e
         \<and> line_end (last (expand_line e)) = line_end e"
proof -
  obtain a b s where e: "e = (a, b, s)" by (cases e) auto
  have len: "0 < at_ms b - at_ms a" "at_ms b - at_ms a < 2147483648500"
    using assms by (simp_all add: e line_start_def line_end_def)
  show ?thesis
  proof (cases "at_ms b - at_ms a < 2000")
    case True
    with len show ?thesis by (simp add: e expand_line_unfold)
  next
    case False
    define N where "N = toInt32 ((at_ms b - at_ms a - 500) / 1000)"
    have "N = \<lfloor>(at_ms b - at_ms a - 500) / 1000\<rfloor>"
      unfolding N_def using False len by (intro toInt32_floor) simp_all
    moreover have "1 \<le> \<lfloor>(at_ms b - at_ms a - 500) / 1000\<rfloor>"
      using False by (simp add: le_floor_iff)
    ultimately have N: "1 \<le> N" by simp
    obtain m where m: "nat N = Suc m"
      using N by (cases "nat N") simp_all
    have "int (nat N) = N" using N by simp
    then have Nm: "real_of_int N = real (Suc m)"
      unfolding m by (metis of_int_of_nat_eq)
    have 1: "lerp (at_ms a) (at_ms b) (real (m + 1) / real_of_int N) = at_ms b"
      unfolding Nm by (simp add: lerp_def)
    have 0: "lerp (at_ms a) (at_ms b) (real 0 / real_of_int N) = at_ms a"
      by (simp add: lerp_def)
    have ex: "expand_line e = map (\<lambda>i.
                (\<lparr>at_ms = lerp (at_ms a) (at_ms b) (real i / real_of_int N),
                  pos = lerp (pos a) (pos b) (real i / real_of_int N)\<rparr>,
                 \<lparr>at_ms = lerp (at_ms a) (at_ms b) (real (i + 1) / real_of_int N),
                  pos = lerp (pos a) (pos b) (real (i + 1) / real_of_int N)\<rparr>,
                 s)) [0..<Suc m]"
      using False len unfolding e expand_line_unfold N_def [symmetric] m by simp
    show ?thesis
      unfolding ex map_upt_ends using 0 1
      by (simp add: line_start_def line_end_def e del: upt_Suc)
  qed
qed

lemma expand_lines_ends:
  assumes "ls \<noteq> []"
    and "\<forall>e \<in> set ls. 0 < line_end e - line_start e \<and> line_end e - line_start e < 2147483648500"
  shows "expand_lines ls \<noteq> [] \<and> line_start (hd (expand_lines ls)) = line_start (hd ls)
         \<and> line_end (last (expand_lines ls)) = line_end (last ls)"
  using assms
proof (induction ls)
  case Nil
  then show ?case by simp
next
  case (Cons e ls)
  have e: "expand_line e \<noteq> []" "line_start (hd (expand_line e)) = line_start e"
    "line_end (last (expand_line e)) = line_end e"
    using expand_line_ends [of e] Cons.prems(2) by simp_all
  show ?case
  proof (cases "ls = []")
    case True
    with e show ?thesis by (simp add: expand_lines_def)
  next
    case False
    with Cons show ?thesis
      using e by (simp add: expand_lines_Cons)
  qed
qed

lemma add_boundary_stops_ends:
  assumes "ls \<noteq> []"
  shows "add_boundary_stops ls duration stops \<noteq> []
     \<and> hd (add_boundary_stops ls duration stops) =
         (if 100 < line_start (hd ls)
          then \<lparr>stop_at = line_start (hd ls) - 100, stop_speed = Fin 0\<rparr>
          else \<lparr>stop_at = line_start (hd ls), stop_speed = line_speed (hd ls)\<rparr>)
     \<and> last (add_boundary_stops ls duration stops) =
         (if line_end (last ls) < duration - 100
          then \<lparr>stop_at = line_end (last ls) + 100, stop_speed = Fin 0\<rparr>
          else \<lparr>stop_at = line_end (last ls), stop_speed = line_speed (last ls)\<rparr>)"
  using assms by (simp add: add_boundary_stops_def Let_def)

lemma gradient_stops_ends:
  assumes "merge_loop 0 (expand_lines zigzag) \<noteq> []"
  shows "gradient_stops zigzag duration \<noteq> []
     \<and> hd (gradient_stops zigzag duration) =
         (if 100 < line_start (hd (merge_loop 0 (expand_lines zigzag)))
          then \<lparr>stop_at = line_start (hd (merge_loop 0 (expand_lines zigzag))) - 100, stop_speed = Fin 0\<rparr>
          else \<lparr>stop_at = line_start (hd (merge_loop 0 (expand_lines zigzag))),
                stop_speed = line_speed (hd (merge_loop 0 (expand_lines zigzag)))\<rparr>)
     \<and> last (gradient_stops zigzag duration) =
         (if line_end (last (merge_loop 0 (expand_lines zigzag))) < duration - 100
          then \<lparr>stop_at = line_end (last (merge_loop 0 (expand_lines zigzag))) + 100, stop_speed = Fin 0\<rparr>
          else \<lparr>stop_at = line_end (last (merge_loop 0 (expand_lines zigzag))),
                stop_speed = line_speed (last (merge_loop 0 (expand_lines zigzag)))\<rparr>)"
proof -
  define ls where "ls = merge_loop 0 (expand_lines zigzag)"
  define st where "st = map mid_stop (redundancy_filter line_speed ls)"
  have g: "gradient_stops zigzag duration = redundancy_filter stop_speed (add_boundary_stops ls duration st)"
    by (simp add: gradient_stops_def Let_def ls_def st_def)
  have ne: "ls \<noteq> []" using assms by (simp add: ls_def)
  note b = add_boundary_stops_ends [OF ne, of duration st]
  show ?thesis
    unfolding ls_def [symmetric] g
    using b by (simp add: redundancy_filter_Nil_iff hd_redundancy_filter last_redundancy_filter)
qed

lemma offset_render_stop_any:
  "offset (render_stop hex duration s) =
     (if duration = 0
      then (if stop_at s = 0 then NaN else if 0 < stop_at s then Fin 1 else Fin 0)
      else Fin (round2 (max 0 (min 1 (stop_at s / duration)))))"
proof (cases "duration = 0")
  case True
  have "round2 0 = 0" "round2 1 = 1" by (simp_all add: round2_def)
  with True show ?thesis
    by (simp add: render_stop_def js_min_def js_max_def)
next
  case False
  then show ?thesis
    by (simp add: render_stop_def js_min_def js_max_def max_def min_def)
qed

section \<open>The merged list of ordered segments\<close>

lemma hd_end_merge_loop:
  "time_ordered ls \<Longrightarrow> ls \<noteq> [] \<Longrightarrow> line_end (hd ls) \<le> line_end (hd (merge_loop 0 ls))"
proof (induction ls rule: merge_scan_induct)
  case Nil
  then show ?case by simp
next
  case (single e)
  then show ?case by (simp add: merge_loop_single)
next
  case (step e f r)
  show ?case
  proof (cases "line_end f - line_start e < 1000")
    case True
    have "time_ordered ((fst e, fst (snd f), merged_speed e f) # r)"
      using step.prems by (auto simp: time_ordered_Cons line_start_def line_end_def)
    then have "line_end f \<le> line_end (hd (merge_loop 0 ((fst e, fst (snd f), merged_speed e f) # r)))"
      using step.IH(1) [OF True] by (simp add: line_end_def)
    moreover have "line_end e \<le> line_end f"
      using step.prems by (fastforce simp: time_ordered_Cons)
    ultimately show ?thesis using True by (simp add: merge_loop_step)
  next
    case False
    then show ?thesis by (simp add: merge_loop_step)
  qed
qed

lemma merge_loop_no_close_pair:
  "time_ordered ls \<Longrightarrow>
     successively (\<lambda>e f. \<not> line_end f - line_start e < 1000) (merge_loop 0 ls)"
proof (induction ls rule: merge_scan_induct)
  case Nil
  then show ?case by (simp add: merge_loop_Nil)
next
  case (single e)
  then show ?case by (simp add: merge_loop_single)
next
  case (step e f r)
  show ?case
  proof (cases "line_end f - line_start e < 1000")
    case True
    have "time_ordered ((fst e, fst (snd f), merged_speed e f) # r)"
      using step.prems by (auto simp: time_ordered_Cons line_start_def line_end_def)
    with step.IH(1) [OF True] True show ?thesis by (simp add: merge_loop_step)
  next
    case False
    have t: "time_ordered (f # r)" using step.prems by (simp add: time_ordered_Cons)
    have "line_end f \<le> line_end (hd (merge_loop 0 (f # r)))"
      using hd_end_merge_loop [OF t] by simp
    with False have "\<not> line_end (hd (merge_loop 0 (f # r))) - line_start e < 1000"
      by simp
    moreover have "successively (\<lambda>e f. \<not> line_end f - line_start e < 1000) (merge_loop 0 (f # r))"
      using step.IH(2) [OF False t] .
    ultimately show ?thesis
      using False by (simp add: merge_loop_step successively_Cons)
  qed
qed

section \<open>Rounded offsets, stop counts and finite speeds\<close>

lemma round2_near:
  assumes "0 \<le> x" "x \<le> 1"
  shows "\<bar>round2 x - x\<bar> \<le> 1 / 200" "0 \<le> round2 x" "round2 x \<le> 1"
proof -
  define n where "n = \<lfloor>x * 100 + 1 / 2\<rfloor>"
  have r: "round2 x = real_of_int n / 100"
    using assms by (simp add: round2_unit n_def)
  have lo: "real_of_int n \<le> x * 100 + 1 / 2" unfolding n_def by (rule of_int_floor_le)
  have hi: "x * 100 + 1 / 2 < real_of_int n + 1" unfolding n_def by linarith
  have "real_of_int n / 100 - x \<le> 1 / 200" "x - real_of_int n / 100 \<le> 1 / 200"
    using lo hi by simp_all
  then show "\<bar>round2 x - x\<bar> \<le> 1 / 200"
    unfolding r by linarith
  have "0 \<le> n" unfolding n_def using assms by simp
  then show "0 \<le> round2 x" unfolding r by simp
  have "x * 100 + 1 / 2 < 101" using assms by simp
  then have "n < 101" unfolding n_def by (simp add: floor_less_iff)
  then have "real_of_int n \<le> 100" by simp
  then show "round2 x \<le> 1" unfolding r by simp
qed

lemma length_filter_pass_None:
  "2 \<le> length xs \<Longrightarrow> 2 \<le> length (filter_pass speed None xs)"
proof (cases xs)
  case Nil
  then show "2 \<le> length xs \<Longrightarrow> ?thesis" by simp
next
  case (Cons e t)
  assume "2 \<le> length xs"
  with Cons obtain n r where t: "t = n # r" by (cases t) auto
  have "filter_pass speed (Some e) (n # r) \<noteq> []" by (simp add: filter_pass_Nil_iff)
  then have "1 \<le> length (filter_pass speed (Some e) (n # r))"
    by (cases "filter_pass speed (Some e) (n # r)") simp_all
  then show ?thesis by (simp add: Cons t)
qed

lemma length_redundancy_filter:
  "2 \<le> length xs \<Longrightarrow> 2 \<le> length (redundancy_filter speed xs)"
  by (simp add: redundancy_filter_pass length_filter_pass_None)

lemma length_add_boundary_stops:
  "ls \<noteq> [] \<Longrightarrow> 2 \<le> length (add_boundary_stops ls duration stops)"
  by (simp add: add_boundary_stops_def Let_def)

lemma length_gradient_stops:
  "merge_loop 0 (expand_lines zigzag) \<noteq> [] \<Longrightarrow> 2 \<le> length (gradient_stops zigzag duration)"
  by (simp add: gradient_stops_def Let_def length_redundancy_filter length_add_boundary_stops)

lemma merge_loop_ends_ge:
  "\<forall>y \<in> set ls. c \<le> line_end y \<Longrightarrow> \<forall>x \<in> set (merge_loop 0 ls). c \<le> line_end x"
  by (induction ls rule: merge_scan_induct)
     (auto simp: merge_loop_Nil merge_loop_single merge_loop_step line_end_def)

lemma expand_lines_within:
  assumes "x \<in> set (expand_lines ls)"
  shows "\<exists>e \<in> set ls. line_start e \<le> line_start x \<and> line_start x \<le> line_end x
           \<and> line_end x \<le> line_end e"
  using assms expand_line_within by (fastforce simp: expand_lines_def)

lemma add_boundary_stops_nonneg:
  assumes "\<forall>e \<in> set ls. 0 \<le> line_start e \<and> 0 \<le> line_end e"
    and "\<forall>s \<in> set stops. 0 \<le> stop_at s"
  shows "\<forall>s \<in> set (add_boundary_stops ls duration stops). 0 \<le> stop_at s"
proof (cases "ls = []")
  case True
  with assms show ?thesis by (simp add: add_boundary_stops_def)
next
  case False
  then have "hd ls \<in> set ls" "last ls \<in> set ls" by simp_all
  then have "0 \<le> line_start (hd ls)" "0 \<le> line_end (last ls)" using assms(1) by auto
  with False assms(2) show ?thesis
    by (auto simp: add_boundary_stops_def Let_def)
qed

lemma gradient_stops_nonneg:
  assumes "\<forall>e \<in> set zigzag. 0 \<le> line_start e \<and> 0 \<le> line_end e"
  shows "\<forall>s \<in> set (gradient_stops zigzag duration). 0 \<le> stop_at s"
proof -
  define ls where "ls = merge_loop 0 (expand_lines zigzag)"
  have ex: "\<forall>x \<in> set (expand_lines zigzag). 0 \<le> line_start x \<and> 0 \<le> line_end x"
  proof
    fix x assume "x \<in> set (expand_lines zigzag)"
    then obtain e where "e \<in> set zigzag" "line_start e \<le> line_start x"
      "line_start x \<le> line_end x"
      using expand_lines_within by blast
    with assms show "0 \<le> line_start x \<and> 0 \<le> line_end x" by fastforce
  qed
  have ls: "\<forall>e \<in> set ls. 0 \<le> line_start e \<and> 0 \<le> line_end e"
    using merge_loop_starts [of "expand_lines zigzag" 0] merge_loop_ends_ge [of "expand_lines zigzag" 0] ex
    by (simp add: ls_def)
  have "\<forall>s \<in> set (map mid_stop (redundancy_filter line_speed ls)). 0 \<le> stop_at s"
    using ls set_redundancy_filter [of line_speed ls] by (auto simp: mid_stop_def)
  then have "\<forall>s \<in> set (add_boundary_stops ls duration (map mid_stop (redundancy_filter line_speed ls))).
      0 \<le> stop_at s"
    using ls by (intro add_boundary_stops_nonneg) simp_all
  then show ?thesis
    using set_redundancy_filter [of stop_speed]
    by (auto simp: gradient_stops_def Let_def ls_def)
qed






lemma offset_render_stop_near:
  assumes "duration \<noteq> 0"
  shows "\<exists>v. offset (render_stop hex duration s) = Fin v \<and> 0 \<le> v \<and> v \<le> 1
           \<and> \<bar>v - max 0 (min 1 (stop_at s / duration))\<bar> \<le> 1 / 200"
proof -
  define x where "x = max 0 (min 1 (stop_at s / duration))"
  have x: "0 \<le> x" "x \<le> 1" by (simp_all add: x_def)
  have "offset (render_stop hex duration s) = Fin (round2 x)"
    using assms by (simp add: offset_render_stop_any x_def)
  then show ?thesis
    using round2_near [OF x] unfolding x_def by blast
qed

lemma offset_render_stop_zero:
  "duration < 0 \<Longrightarrow> 0 \<le> stop_at s \<Longrightarrow> offset (render_stop hex duration s) = Fin 0"
proof -
  assume d: "duration < 0" and t: "0 \<le> stop_at s"
  have "stop_at s / duration \<le> 0" using d t by (simp add: divide_nonneg_neg)
  then have "max 0 (min 1 (stop_at s / duration)) = 0" by simp
  moreover have "round2 0 = 0" by (simp add: round2_def)
  ultimately show ?thesis using d by (simp add: offset_render_stop_any)
qed

section \<open>The comparator sort\<close>

lemma mset_insert_by: "mset (insert_by cmp x ys) = add_mset x (mset ys)"
  by (induction ys) simp_all

lemma mset_js_sort: "mset (js_sort cmp xs) = mset xs"
  by (induction xs) (simp_all add: js_sort_def mset_insert_by)

lemma set_insert_by: "set (insert_by cmp x ys) = insert x (set ys)"
  by (induction ys) auto

lemma sorted_insert_by:
  fixes key :: "'a \<Rightarrow> real"
  shows "sorted (map key ys) \<Longrightarrow> sorted (map key (insert_by (\<lambda>a b. key a - key b) x ys))"
  by (induction ys) (auto simp: set_insert_by)

lemma sorted_js_sort:
  fixes key :: "'a \<Rightarrow> real"
  shows "sorted (map key (js_sort (\<lambda>a b. key a - key b) xs))"
proof (induction xs)
  case Nil
  then show ?case by (simp add: js_sort_def)
next
  case (Cons x xs)
  then show ?case
    using sorted_insert_by [of key "js_sort (\<lambda>a b. key a - key b) xs" x]
    by (simp add: js_sort_def)
qed

section \<open>Evaluation on concrete inputs\<close>

lemmas eval_defs = gradient_stops_def expand_lines_def expand_line_def Let_def toInt32_def
  merge_loop_Nil merge_loop_single merge_loop_step line_start_def line_end_def line_speed_def
  merged_speed_def redundancy_filter_pass add_boundary_stops_def mid_stop_def lerp_def

lemmas render_defs = toSvgBackgroundGradient_def render_stop_def js_min_def js_max_def
  js_ge_def round2_def

lemma late_segment_stops:
  "gradient_stops [(\<lparr>at_ms = 5000, pos = 0\<rparr>, \<lparr>at_ms = 5500, pos = 100\<rparr>, Fin 50)] 10000
   = [\<lparr>stop_at = 4900, stop_speed = Fin 0\<rparr>, \<lparr>stop_at = 5000, stop_speed = Fin 50\<rparr>,
      \<lparr>stop_at = 5500, stop_speed = Fin 50\<rparr>, \<lparr>stop_at = 5600, stop_speed = Fin 0\<rparr>]"
  by (simp add: eval_defs)

lemma zero_duration_stops:
  "gradient_stops [(\<lparr>at_ms = 0, pos = 0\<rparr>, \<lparr>at_ms = 500, pos = 100\<rparr>, Fin 50)] 0
   = [\<lparr>stop_at = 0, stop_speed = Fin 50\<rparr>, \<lparr>stop_at = 500, stop_speed = Fin 50\<rparr>]"
  by (simp add: eval_defs)

section \<open>The claims\<close>

text \<open>
  Claim C1 says that a total duration of zero or less makes the call fail with an
  invalid-argument error.  The source has no such check, nor any other rejecting
  path: at a duration of 0 the call below returns two stops, the first with the
  offset NaN.
\<close>

theorem gradient_zero_duration_counterexample:
  "toSvgBackgroundGradient (\<lambda>s. []) [(\<lparr>at_ms = 0, pos = 0\<rparr>, \<lparr>at_ms = 500, pos = 100\<rparr>, Fin 50)] 0
   = [\<lparr>offset = NaN, stop_color = [], stop_opacity = Some (Fin (1 / 2))\<rparr>,
      \<lparr>offset = Fin 1, stop_color = [], stop_opacity = Some (Fin (1 / 2))\<rparr>]"
  by (simp add: render_defs zero_duration_stops)

text \<open>
  Claim C1, as the code has it.  For every segment list and every duration of zero or
  less the call returns a stop list, one rendered stop for each synthesised stop, and
  at least two stops whenever a segment is left after expansion and merging.  At a
  duration of zero the offset of a stop at time 0 is NaN, and the offset of any other
  stop is 0 or 1 (which of the two depends on the sign of the time and of the zero).
  At a negative duration the offset of a stop at a non-negative time is 0, so that
  all offsets are 0 when no keyframe time is negative; the offset of a stop at a
  negative time is the quotient of time and duration, cut off at 1, to two decimals:
  a number in \<open>[0, 1]\<close> within \<open>1 / 200\<close> of it.
\<close>

theorem gradient_nonpositive_duration:
  assumes "duration \<le> 0"
  shows "length (toSvgBackgroundGradient hex zigzag duration) = length (gradient_stops zigzag duration)
     \<and> (merge_loop 0 (expand_lines zigzag) \<noteq> [] \<longrightarrow>
          2 \<le> length (toSvgBackgroundGradient hex zigzag duration))
     \<and> (\<forall>i < length (gradient_stops zigzag duration).
          (duration = 0 \<and> stop_at (gradient_stops zigzag duration ! i) = 0 \<longrightarrow>
             offset (toSvgBackgroundGradient hex zigzag duration ! i) = NaN)
          \<and> (duration = 0 \<and> stop_at (gradient_stops zigzag duration ! i) \<noteq> 0 \<longrightarrow>
             offset (toSvgBackgroundGradient hex zigzag duration ! i) = Fin 0
             \<or> offset (toSvgBackgroundGradient hex zigzag duration ! i) = Fin 1)
          \<and> (duration < 0 \<and> 0 \<le> stop_at (gradient_stops zigzag duration ! i) \<longrightarrow>
             offset (toSvgBackgroundGradient hex zigzag duration ! i) = Fin 0)
          \<and> (duration < 0 \<and> stop_at (gradient_stops zigzag duration ! i) < 0 \<longrightarrow>
             (\<exists>v. offset (toSvgBackgroundGradient hex zigzag duration ! i) = Fin v
                  \<and> 0 \<le> v \<and> v \<le> 1
                  \<and> \<bar>v - min 1 (stop_at (gradient_stops zigzag duration ! i) / duration)\<bar>
                      \<le> 1 / 200)))
     \<and> (duration < 0 \<and> (\<forall>e \<in> set zigzag. 0 \<le> line_start e \<and> 0 \<le> line_end e) \<longrightarrow>
          (\<forall>g \<in> set (toSvgBackgroundGradient hex zigzag duration). offset g = Fin 0))"
proof -
  let ?gs = "gradient_stops zigzag duration"
  let ?out = "toSvgBackgroundGradient hex zigzag duration"
  have len: "length ?out = length ?gs" by (simp add: toSvgBackgroundGradient_def)
  have two: "merge_loop 0 (expand_lines zigzag) \<noteq> [] \<longrightarrow> 2 \<le> length ?out"
    using length_gradient_stops [of zigzag duration] len by simp
  have nth: "?out ! i = render_stop hex duration (?gs ! i)" if "i < length ?gs" for i
    using that by (simp add: toSvgBackgroundGradient_def)
  have per: "(duration = 0 \<and> stop_at (?gs ! i) = 0 \<longrightarrow> offset (?out ! i) = NaN)
          \<and> (duration = 0 \<and> stop_at (?gs ! i) \<noteq> 0 \<longrightarrow>
             offset (?out ! i) = Fin 0 \<or> offset (?out ! i) = Fin 1)
          \<and> (duration < 0 \<and> 0 \<le> stop_at (?gs ! i) \<longrightarrow> offset (?out ! i) = Fin 0)
          \<and> (duration < 0 \<and> stop_at (?gs ! i) < 0 \<longrightarrow>
             (\<exists>v. offset (?out ! i) = Fin v \<and> 0 \<le> v \<and> v \<le> 1
                  \<and> \<bar>v - min 1 (stop_at (?gs ! i) / duration)\<bar> \<le> 1 / 200))"
    if i: "i < length ?gs" for i
  proof -
    have 1: "duration = 0 \<and> stop_at (?gs ! i) = 0 \<longrightarrow> offset (?out ! i) = NaN"
      unfolding nth [OF i] by (simp add: offset_render_stop_any)
    have 2: "duration = 0 \<and> stop_at (?gs ! i) \<noteq> 0 \<longrightarrow>
        offset (?out ! i) = Fin 0 \<or> offset (?out ! i) = Fin 1"
      unfolding nth [OF i] by (simp add: offset_render_stop_any)
    have 3: "duration < 0 \<and> 0 \<le> stop_at (?gs ! i) \<longrightarrow> offset (?out ! i) = Fin 0"
      unfolding nth [OF i] by (simp add: offset_render_stop_zero)
    have 4: "duration < 0 \<and> stop_at (?gs ! i) < 0 \<longrightarrow>
             (\<exists>v. offset (?out ! i) = Fin v \<and> 0 \<le> v \<and> v \<le> 1
                  \<and> \<bar>v - min 1 (stop_at (?gs ! i) / duration)\<bar> \<le> 1 / 200)"
    proof
      assume a: "duration < 0 \<and> stop_at (?gs ! i) < 0"
      then have "0 \<le> stop_at (?gs ! i) / duration" by (simp add: divide_nonpos_neg)
      then have "max 0 (min 1 (stop_at (?gs ! i) / duration)) = min 1 (stop_at (?gs ! i) / duration)"
        by simp
      moreover have "duration \<noteq> 0" using a by simp
      ultimately show "\<exists>v. offset (?out ! i) = Fin v \<and> 0 \<le> v \<and> v \<le> 1
                  \<and> \<bar>v - min 1 (stop_at (?gs ! i) / duration)\<bar> \<le> 1 / 200"
        unfolding nth [OF i] using offset_render_stop_near [of duration hex "?gs ! i"] by simp
    qed
    show ?thesis using 1 2 3 4 by blast
  qed
  have all: "duration < 0 \<and> (\<forall>e \<in> set zigzag. 0 \<le> line_start e \<and> 0 \<le> line_end e) \<longrightarrow>
          (\<forall>g \<in> set ?out. offset g = Fin 0)"
  proof
    assume a: "duration < 0 \<and> (\<forall>e \<in> set zigzag. 0 \<le> line_start e \<and> 0 \<le> line_end e)"
    then have "\<forall>s \<in> set ?gs. 0 \<le> stop_at s" using gradient_stops_nonneg by blast
    then show "\<forall>g \<in> set ?out. offset g = Fin 0"
      using a by (auto simp: toSvgBackgroundGradient_def offset_render_stop_zero)
  qed
  show ?thesis using len two per all by blast
qed

theorem gradient_nonpositive_duration_witness:
  "(0::real) \<le> 0
   \<and> length (toSvgBackgroundGradient (\<lambda>s. [])
        [(\<lparr>at_ms = 0, pos = 0\<rparr>, \<lparr>at_ms = 500, pos = 100\<rparr>, Fin 50)] 0) = 2
   \<and> offset (toSvgBackgroundGradient (\<lambda>s. [])
        [(\<lparr>at_ms = 0, pos = 0\<rparr>, \<lparr>at_ms = 500, pos = 100\<rparr>, Fin 50)] 0 ! 0) = NaN
   \<and> (-1000::real) \<le> 0
   \<and> map offset (toSvgBackgroundGradient (\<lambda>s. [])
        [(\<lparr>at_ms = 0, pos = 0\<rparr>, \<lparr>at_ms = 500, pos = 100\<rparr>, Fin 50)] (-1000)) = [Fin 0, Fin 0]"
proof -
  have h0: "(0::real) \<le> 0" by simp
  have h1: "(-1000::real) \<le> 0" by simp
  have g: "gradient_stops [(\<lparr>at_ms = 0, pos = 0\<rparr>, \<lparr>at_ms = 500, pos = 100\<rparr>, Fin 50)] (-1000)
     = [\<lparr>stop_at = 0, stop_speed = Fin 50\<rparr>, \<lparr>stop_at = 500, stop_speed = Fin 50\<rparr>]"
    by (simp add: eval_defs)
  have a: "map offset (toSvgBackgroundGradient (\<lambda>s. [])
        [(\<lparr>at_ms = 0, pos = 0\<rparr>, \<lparr>at_ms = 500, pos = 100\<rparr>, Fin 50)] (-1000)) = [Fin 0, Fin 0]"
    using gradient_nonpositive_duration [OF h1, of "\<lambda>s. []"
        "[(\<lparr>at_ms = 0, pos = 0\<rparr>, \<lparr>at_ms = 500, pos = 100\<rparr>, Fin 50)]"]
    by (simp add: toSvgBackgroundGradient_def g line_start_def line_end_def)
  show ?thesis
    using gradient_nonpositive_duration [OF h0, of "\<lambda>s. []"
        "[(\<lparr>at_ms = 0, pos = 0\<rparr>, \<lparr>at_ms = 500, pos = 100\<rparr>, Fin 50)]"] a
    by (simp add: zero_duration_stops)
qed

text \<open>
  Claim C2 says that for the single segment from 0 to 10000 of speed 50 and the
  duration 10000 the two output stops are at the midpoints of the first and the last
  of the nine sub-segments, offsets about 0.055 and 0.944.  The output offsets are 0
  and 1; the two midpoints would be rendered as 0.06 and 0.94.
\<close>

theorem single_long_segment_counterexample:
  "map offset (toSvgBackgroundGradient (\<lambda>s. []) [(\<lparr>at_ms = 0, pos = 0\<rparr>, \<lparr>at_ms = 10000, pos = 100\<rparr>, Fin 50)] 10000) = [Fin 0, Fin 1]
   \<and> map (\<lambda>e. offset (render_stop (\<lambda>s. []) 10000 (mid_stop e)))
         [hd (expand_lines [(\<lparr>at_ms = 0, pos = 0\<rparr>, \<lparr>at_ms = 10000, pos = 100\<rparr>, Fin 50)]), last (expand_lines [(\<lparr>at_ms = 0, pos = 0\<rparr>, \<lparr>at_ms = 10000, pos = 100\<rparr>, Fin 50)])]
       = [Fin (3 / 50), Fin (47 / 50)]"
proof -
  have g: "gradient_stops [(\<lparr>at_ms = 0, pos = 0\<rparr>, \<lparr>at_ms = 10000, pos = 100\<rparr>, Fin 50)] 10000
       = [\<lparr>stop_at = 0, stop_speed = Fin 50\<rparr>, \<lparr>stop_at = 10000, stop_speed = Fin 50\<rparr>]"
    by (simp add: eval_defs upt_rec)
  have 1: "map offset (toSvgBackgroundGradient (\<lambda>s. []) [(\<lparr>at_ms = 0, pos = 0\<rparr>, \<lparr>at_ms = 10000, pos = 100\<rparr>, Fin 50)] 10000) = [Fin 0, Fin 1]"
    by (simp add: g render_defs)
  have 2: "map (\<lambda>e. offset (render_stop (\<lambda>s. []) 10000 (mid_stop e)))
         [hd (expand_lines [(\<lparr>at_ms = 0, pos = 0\<rparr>, \<lparr>at_ms = 10000, pos = 100\<rparr>, Fin 50)]), last (expand_lines [(\<lparr>at_ms = 0, pos = 0\<rparr>, \<lparr>at_ms = 10000, pos = 100\<rparr>, Fin 50)])]
       = [Fin (3 / 50), Fin (47 / 50)]"
    by (simp add: eval_defs upt_rec render_defs)
  show ?thesis using 1 2 by simp
qed

text \<open>
  Claim C2, as the code has it.  The segment is expanded into nine sub-segments, none
  of which the merger fuses.  The synthesis returns exactly two stops, both of speed
  50 and so of opacity 0.5, at the offsets 0 and 1: the stops at the start and at the
  end of the segment are added unconditionally, and the final filter then removes the
  two midpoint stops between them.
\<close>

theorem single_long_segment_stops:
  "length (merge_loop 0 (expand_lines [(\<lparr>at_ms = 0, pos = p\<rparr>, \<lparr>at_ms = 10000, pos = q\<rparr>, Fin 50)])) = 9
   \<and> gradient_stops [(\<lparr>at_ms = 0, pos = p\<rparr>, \<lparr>at_ms = 10000, pos = q\<rparr>, Fin 50)] 10000
       = [\<lparr>stop_at = 0, stop_speed = Fin 50\<rparr>, \<lparr>stop_at = 10000, stop_speed = Fin 50\<rparr>]
   \<and> toSvgBackgroundGradient hex [(\<lparr>at_ms = 0, pos = p\<rparr>, \<lparr>at_ms = 10000, pos = q\<rparr>, Fin 50)] 10000
       = [\<lparr>offset = Fin 0, stop_color = hex (Fin 50), stop_opacity = Some (Fin (1 / 2))\<rparr>,
          \<lparr>offset = Fin 1, stop_color = hex (Fin 50), stop_opacity = Some (Fin (1 / 2))\<rparr>]"
proof -
  have g: "gradient_stops [(\<lparr>at_ms = 0, pos = p\<rparr>, \<lparr>at_ms = 10000, pos = q\<rparr>, Fin 50)] 10000
       = [\<lparr>stop_at = 0, stop_speed = Fin 50\<rparr>, \<lparr>stop_at = 10000, stop_speed = Fin 50\<rparr>]"
    by (simp add: eval_defs upt_rec)
  have l: "length (merge_loop 0 (expand_lines [(\<lparr>at_ms = 0, pos = p\<rparr>, \<lparr>at_ms = 10000, pos = q\<rparr>, Fin 50)])) = 9"
    by (simp add: eval_defs upt_rec)
  show ?thesis
    by (simp add: l g render_defs)
qed

text \<open>
  Claim C3 says that the first and the last output offset lie within the 100 ms
  padding window of 0 and of 1.  For one segment from 5000 to 5500 and the duration
  10000 the offsets are 0.49, 0.5, 0.55 and 0.56: the first is above 100 / 10000 and
  the last below 1 - 100 / 10000.
\<close>

theorem gradient_boundary_counterexample:
  "map offset (toSvgBackgroundGradient (\<lambda>s. []) [(\<lparr>at_ms = 5000, pos = 0\<rparr>, \<lparr>at_ms = 5500, pos = 100\<rparr>, Fin 50)] 10000)
     = [Fin (49 / 100), Fin (1 / 2), Fin (11 / 20), Fin (14 / 25)]
   \<and> \<not> js_le (Fin (49 / 100)) (Fin (100 / 10000))
   \<and> \<not> js_le (Fin (1 - 100 / 10000)) (Fin (14 / 25))"
  by (simp add: render_defs late_segment_stops)

text \<open>
  Claim C3, as the code has it.  Take a non-empty input whose segments all have a
  positive span (below the span at which the 32-bit count of sub-segments wraps).
  Then the output is not empty.  Its first stop is the zero-speed stop 100 ms before
  the start of the first segment when that start is more than 100 ms after time 0,
  and otherwise the stop at that start.  Its last stop is the zero-speed stop 100 ms
  after the end of the last segment when that end is more than 100 ms before the
  duration, and otherwise the stop at that end.  For a positive duration the two
  offsets are these times divided by the duration and clamped to \<open>[0, 1]\<close>, to two
  decimals: each is a number in \<open>[0, 1]\<close> within \<open>1 / 200\<close> of the clamped quotient.
\<close>

theorem gradient_boundary_stops:
  assumes "zigzag \<noteq> []"
    and "\<forall>e \<in> set zigzag. 0 < line_end e - line_start e
           \<and> line_end e - line_start e < 2147483648500"
  shows "gradient_stops zigzag duration \<noteq> []
     \<and> stop_at (hd (gradient_stops zigzag duration)) =
         (if 100 < line_start (hd zigzag) then line_start (hd zigzag) - 100
          else line_start (hd zigzag))
     \<and> (100 < line_start (hd zigzag) \<longrightarrow>
          stop_speed (hd (gradient_stops zigzag duration)) = Fin 0)
     \<and> stop_at (last (gradient_stops zigzag duration)) =
         (if line_end (last zigzag) < duration - 100 then line_end (last zigzag) + 100
          else line_end (last zigzag))
     \<and> (line_end (last zigzag) < duration - 100 \<longrightarrow>
          stop_speed (last (gradient_stops zigzag duration)) = Fin 0)
     \<and> toSvgBackgroundGradient hex zigzag duration \<noteq> []
     \<and> (0 < duration \<longrightarrow>
          (\<exists>v. offset (hd (toSvgBackgroundGradient hex zigzag duration)) = Fin v
               \<and> 0 \<le> v \<and> v \<le> 1
               \<and> \<bar>v - max 0 (min 1 (stop_at (hd (gradient_stops zigzag duration)) / duration))\<bar>
                   \<le> 1 / 200)
          \<and> (\<exists>v. offset (last (toSvgBackgroundGradient hex zigzag duration)) = Fin v
               \<and> 0 \<le> v \<and> v \<le> 1
               \<and> \<bar>v - max 0 (min 1 (stop_at (last (gradient_stops zigzag duration)) / duration))\<bar>
                   \<le> 1 / 200))"
proof -
  define ls where "ls = merge_loop 0 (expand_lines zigzag)"
  have ex: "expand_lines zigzag \<noteq> []"
    "line_start (hd (expand_lines zigzag)) = line_start (hd zigzag)"
    "line_end (last (expand_lines zigzag)) = line_end (last zigzag)"
    using expand_lines_ends [OF assms] by simp_all
  have ne: "ls \<noteq> []" using ex(1) by (simp add: ls_def merge_loop_Nil_iff)
  have s: "line_start (hd ls) = line_start (hd zigzag)"
    using ex(2) by (simp add: ls_def hd_merge_loop)
  have e: "line_end (last ls) = line_end (last zigzag)"
    using ex(1,3) by (simp add: ls_def last_merge_loop)
  note g = gradient_stops_ends [of zigzag duration, folded ls_def, OF ne]
  have gne: "gradient_stops zigzag duration \<noteq> []" using g by simp
  have times: "gradient_stops zigzag duration \<noteq> []
     \<and> stop_at (hd (gradient_stops zigzag duration)) =
         (if 100 < line_start (hd zigzag) then line_start (hd zigzag) - 100
          else line_start (hd zigzag))
     \<and> (100 < line_start (hd zigzag) \<longrightarrow>
          stop_speed (hd (gradient_stops zigzag duration)) = Fin 0)
     \<and> stop_at (last (gradient_stops zigzag duration)) =
         (if line_end (last zigzag) < duration - 100 then line_end (last zigzag) + 100
          else line_end (last zigzag))
     \<and> (line_end (last zigzag) < duration - 100 \<longrightarrow>
          stop_speed (last (gradient_stops zigzag duration)) = Fin 0)
     \<and> toSvgBackgroundGradient hex zigzag duration \<noteq> []"
    using g s e gne by (simp add: toSvgBackgroundGradient_def)
  have h: "hd (toSvgBackgroundGradient hex zigzag duration)
      = render_stop hex duration (hd (gradient_stops zigzag duration))"
    and l: "last (toSvgBackgroundGradient hex zigzag duration)
      = render_stop hex duration (last (gradient_stops zigzag duration))"
    using gne by (simp_all add: toSvgBackgroundGradient_def hd_map last_map)
  have offs: "0 < duration \<longrightarrow>
          (\<exists>v. offset (hd (toSvgBackgroundGradient hex zigzag duration)) = Fin v
               \<and> 0 \<le> v \<and> v \<le> 1
               \<and> \<bar>v - max 0 (min 1 (stop_at (hd (gradient_stops zigzag duration)) / duration))\<bar>
                   \<le> 1 / 200)
          \<and> (\<exists>v. offset (last (toSvgBackgroundGradient hex zigzag duration)) = Fin v
               \<and> 0 \<le> v \<and> v \<le> 1
               \<and> \<bar>v - max 0 (min 1 (stop_at (last (gradient_stops zigzag duration)) / duration))\<bar>
                   \<le> 1 / 200)"
    unfolding h l using offset_render_stop_near [of duration hex] by simp
  show ?thesis using times offs by blast
qed

theorem gradient_boundary_stops_witness:
  "stop_at (hd (gradient_stops
      [(\<lparr>at_ms = 5000, pos = 0\<rparr>, \<lparr>at_ms = 5500, pos = 100\<rparr>, Fin 50)] 10000)) = 4900
   \<and> stop_speed (hd (gradient_stops
      [(\<lparr>at_ms = 5000, pos = 0\<rparr>, \<lparr>at_ms = 5500, pos = 100\<rparr>, Fin 50)] 10000)) = Fin 0
   \<and> stop_at (last (gradient_stops
      [(\<lparr>at_ms = 5000, pos = 0\<rparr>, \<lparr>at_ms = 5500, pos = 100\<rparr>, Fin 50)] 10000)) = 5600
   \<and> stop_speed (last (gradient_stops
      [(\<lparr>at_ms = 5000, pos = 0\<rparr>, \<lparr>at_ms = 5500, pos = 100\<rparr>, Fin 50)] 10000)) = Fin 0
   \<and> offset (hd (toSvgBackgroundGradient (\<lambda>s. [])
      [(\<lparr>at_ms = 5000, pos = 0\<rparr>, \<lparr>at_ms = 5500, pos = 100\<rparr>, Fin 50)] 10000)) = Fin (49 / 100)
   \<and> \<bar>49 / 100 - max 0 (min 1 (4900 / 10000))\<bar> \<le> (1 / 200 :: real)
   \<and> offset (last (toSvgBackgroundGradient (\<lambda>s. [])
      [(\<lparr>at_ms = 5000, pos = 0\<rparr>, \<lparr>at_ms = 5500, pos = 100\<rparr>, Fin 50)] 10000)) = Fin (14 / 25)
   \<and> \<bar>14 / 25 - max 0 (min 1 (5600 / 10000))\<bar> \<le> (1 / 200 :: real)"
proof -
  have 1: "[(\<lparr>at_ms = 5000, pos = 0\<rparr>, \<lparr>at_ms = 5500, pos = 100\<rparr>, Fin 50)] \<noteq> []" by simp
  have 2: "\<forall>e \<in> set [(\<lparr>at_ms = 5000, pos = 0\<rparr>, \<lparr>at_ms = 5500, pos = 100\<rparr>, Fin 50)].
      0 < line_end e - line_start e \<and> line_end e - line_start e < 2147483648500"
    by (simp add: line_start_def line_end_def)
  have ov: "map offset (toSvgBackgroundGradient (\<lambda>s. [])
      [(\<lparr>at_ms = 5000, pos = 0\<rparr>, \<lparr>at_ms = 5500, pos = 100\<rparr>, Fin 50)] 10000)
     = [Fin (49 / 100), Fin (1 / 2), Fin (11 / 20), Fin (14 / 25)]"
    by (simp add: render_defs late_segment_stops)
  have oh: "offset (hd (toSvgBackgroundGradient (\<lambda>s. [])
      [(\<lparr>at_ms = 5000, pos = 0\<rparr>, \<lparr>at_ms = 5500, pos = 100\<rparr>, Fin 50)] 10000)) = Fin (49 / 100)"
    and ol: "offset (last (toSvgBackgroundGradient (\<lambda>s. [])
      [(\<lparr>at_ms = 5000, pos = 0\<rparr>, \<lparr>at_ms = 5500, pos = 100\<rparr>, Fin 50)] 10000)) = Fin (14 / 25)"
    by (simp_all add: render_defs late_segment_stops)
  show ?thesis
    using gradient_boundary_stops [OF 1 2, of 10000 "\<lambda>s. []"] oh ol
    by (simp add: line_start_def line_end_def)
qed

text \<open>
  Claim C4 says that a segment of a span above 2000 ms is replaced by exactly
  \<open>floor((span - 500) / 1000)\<close> sub-segments.  The source takes the count with \<open>~~\<close>,
  which wraps at 32 bits: at the span 2147483648500 the floor is \<open>2^31\<close>, the count
  is negative, and the segment is dropped.
\<close>

theorem expand_line_wraps_counterexample:
  "expand_line (\<lparr>at_ms = 0, pos = 0\<rparr>, \<lparr>at_ms = 2147483648500, pos = 100\<rparr>, Fin 7) = []
   \<and> \<lfloor>((2147483648500::real) - 0 - 500) / 1000\<rfloor> = 2147483648"
  by (simp add: expand_line_unfold toInt32_def)

text \<open>
  Claim C4, as the code has it, for a span below 2147483648500 ms.  A segment of
  non-positive span is dropped; a segment of a span of at most 2000 ms passes through
  with its times, positions and speed unchanged; a segment of a longer span is
  replaced by exactly \<open>N = floor((span - 500) / 1000)\<close> sub-segments, the one of index
  \<open>i\<close> running from the interpolation of the two keyframes (times and positions) at
  \<open>i / N\<close> to the one at \<open>(i + 1) / N\<close>, each with the speed of the segment.
\<close>

theorem expand_line_subdivision:
  assumes "at_ms b - at_ms a < 2147483648500"
  shows "expand_line (a, b, s) =
     (if at_ms b - at_ms a \<le> 0 then []
      else if at_ms b - at_ms a \<le> 2000 then [(a, b, s)]
      else map (\<lambda>i.
             (\<lparr>at_ms = lerp (at_ms a) (at_ms b) (real i / real (nat \<lfloor>(at_ms b - at_ms a - 500) / 1000\<rfloor>)),
               pos = lerp (pos a) (pos b) (real i / real (nat \<lfloor>(at_ms b - at_ms a - 500) / 1000\<rfloor>))\<rparr>,
              \<lparr>at_ms = lerp (at_ms a) (at_ms b) (real (i + 1) / real (nat \<lfloor>(at_ms b - at_ms a - 500) / 1000\<rfloor>)),
               pos = lerp (pos a) (pos b) (real (i + 1) / real (nat \<lfloor>(at_ms b - at_ms a - 500) / 1000\<rfloor>))\<rparr>,
              s))
           [0..<nat \<lfloor>(at_ms b - at_ms a - 500) / 1000\<rfloor>])
   \<and> (2000 < at_ms b - at_ms a \<longrightarrow>
        length (expand_line (a, b, s)) = nat \<lfloor>(at_ms b - at_ms a - 500) / 1000\<rfloor>)"
proof (cases "at_ms b - at_ms a < 2000")
  case True
  then show ?thesis by (simp add: expand_line_unfold)
next
  case False
  define N where "N = toInt32 ((at_ms b - at_ms a - 500) / 1000)"
  have Nf: "N = \<lfloor>(at_ms b - at_ms a - 500) / 1000\<rfloor>"
    unfolding N_def using False assms by (intro toInt32_floor) simp_all
  have "1 \<le> \<lfloor>(at_ms b - at_ms a - 500) / 1000\<rfloor>"
    using False by (simp add: le_floor_iff)
  then have N1: "1 \<le> N" using Nf by simp
  then have rN: "real_of_int N = real (nat N)" by simp
  have ex: "expand_line (a, b, s) = map (\<lambda>i.
             (\<lparr>at_ms = lerp (at_ms a) (at_ms b) (real i / real (nat N)),
               pos = lerp (pos a) (pos b) (real i / real (nat N))\<rparr>,
              \<lparr>at_ms = lerp (at_ms a) (at_ms b) (real (i + 1) / real (nat N)),
               pos = lerp (pos a) (pos b) (real (i + 1) / real (nat N))\<rparr>,
              s))
           [0..<nat N]"
    using False unfolding expand_line_unfold N_def [symmetric] rN by simp
  show ?thesis
  proof (cases "at_ms b - at_ms a = 2000")
    case True
    then have "N = 1" using Nf by simp
    then have "expand_line (a, b, s) = [(a, b, s)]"
      unfolding ex by (simp add: lerp_def)
    with True show ?thesis by simp
  next
    case ne: False
    with False have "2000 < at_ms b - at_ms a" by simp
    then show ?thesis
      unfolding ex Nf by simp
  qed
qed

theorem expand_line_subdivision_witness:
  "(4500::real) - 0 < 2147483648500
   \<and> expand_line (\<lparr>at_ms = 0, pos = 0\<rparr>, \<lparr>at_ms = 4500, pos = 100\<rparr>, Fin 7)
     = [(\<lparr>at_ms = 0, pos = 0\<rparr>, \<lparr>at_ms = 1125, pos = 25\<rparr>, Fin 7),
        (\<lparr>at_ms = 1125, pos = 25\<rparr>, \<lparr>at_ms = 2250, pos = 50\<rparr>, Fin 7),
        (\<lparr>at_ms = 2250, pos = 50\<rparr>, \<lparr>at_ms = 3375, pos = 75\<rparr>, Fin 7),
        (\<lparr>at_ms = 3375, pos = 75\<rparr>, \<lparr>at_ms = 4500, pos = 100\<rparr>, Fin 7)]
   \<and> length (expand_line (\<lparr>at_ms = 0, pos = 0\<rparr>, \<lparr>at_ms = 4500, pos = 100\<rparr>, Fin 7)) = 4"
proof -
  have h: "at_ms \<lparr>at_ms = 4500, pos = 100\<rparr> - at_ms \<lparr>at_ms = 0, pos = 0\<rparr> < 2147483648500"
    by simp
  show ?thesis
    using expand_line_subdivision [OF h, of "Fin 7"]
    by (simp add: lerp_def upt_rec)
qed

text \<open>
  Claim C5.  The merger scans from the left.  When the pair at the scan position,
  \<open>(a, b)\<close> then \<open>(c, d)\<close>, has \<open>d.at - a.at < 1000\<close>, the two segments are replaced
  by the one segment \<open>(a, d, s)\<close> and the scan goes on at the same position, with the
  new segment against its new right neighbour; otherwise the scan moves one segment to
  the right.  The speed \<open>s\<close> is the average of the two speeds weighted by the two
  durations: for finite speeds and a non-zero total duration it is exactly
  \<open>(ab * (b.at - a.at) + cd * (d.at - c.at)) / ((b.at - a.at) + (d.at - c.at))\<close>.  A
  400 ms segment of speed 20 followed by a 400 ms segment of speed 60 merges to
  speed 40.  On segments ordered by time, no adjacent pair with
  \<open>d.at - a.at < 1000\<close> is left in the result.
\<close>

theorem merge_loop_scans_and_cascades:
  "merge_loop 0 [] = []
   \<and> merge_loop 0 [e] = [e]
   \<and> merge_loop 0 (e # f # r) =
       (if line_end f - line_start e < 1000
        then merge_loop 0 ((fst e, fst (snd f), merged_speed e f) # r)
        else e # merge_loop 0 (f # r))
   \<and> ((at_ms b - at_ms a) + (at_ms d - at_ms c) \<noteq> 0 \<longrightarrow>
        merged_speed (a, b, Fin ab) (c, d, Fin cd) =
          Fin ((ab * (at_ms b - at_ms a) + cd * (at_ms d - at_ms c))
               / ((at_ms b - at_ms a) + (at_ms d - at_ms c))))
   \<and> merge_loop 0 [(\<lparr>at_ms = 0, pos = p0\<rparr>, \<lparr>at_ms = 400, pos = p1\<rparr>, Fin 20),
                    (\<lparr>at_ms = 400, pos = p1\<rparr>, \<lparr>at_ms = 800, pos = p2\<rparr>, Fin 60)]
       = [(\<lparr>at_ms = 0, pos = p0\<rparr>, \<lparr>at_ms = 800, pos = p2\<rparr>, Fin 40)]
   \<and> (time_ordered ls \<longrightarrow>
        successively (\<lambda>x y. \<not> line_end y - line_start x < 1000) (merge_loop 0 ls))"
  using merge_loop_no_close_pair [of ls]
  by (simp add: merge_loop_Nil merge_loop_single merge_loop_step merged_speed_def
      line_start_def line_end_def)

theorem merge_loop_scans_and_cascades_witness:
  "(400 - 0) + (800 - 400) \<noteq> (0::real)
   \<and> merged_speed (\<lparr>at_ms = 0, pos = 0\<rparr>, \<lparr>at_ms = 400, pos = 100\<rparr>, Fin 20)
                   (\<lparr>at_ms = 400, pos = 100\<rparr>, \<lparr>at_ms = 800, pos = 0\<rparr>, Fin 60) = Fin 40
   \<and> time_ordered [(\<lparr>at_ms = 0, pos = 0\<rparr>, \<lparr>at_ms = 300, pos = 100\<rparr>, Fin 30),
                    (\<lparr>at_ms = 300, pos = 100\<rparr>, \<lparr>at_ms = 600, pos = 0\<rparr>, Fin 60),
                    (\<lparr>at_ms = 600, pos = 0\<rparr>, \<lparr>at_ms = 900, pos = 100\<rparr>, Fin 90)]
   \<and> merge_loop 0 [(\<lparr>at_ms = 0, pos = 0\<rparr>, \<lparr>at_ms = 300, pos = 100\<rparr>, Fin 30),
                    (\<lparr>at_ms = 300, pos = 100\<rparr>, \<lparr>at_ms = 600, pos = 0\<rparr>, Fin 60),
                    (\<lparr>at_ms = 600, pos = 0\<rparr>, \<lparr>at_ms = 900, pos = 100\<rparr>, Fin 90)]
       = [(\<lparr>at_ms = 0, pos = 0\<rparr>, \<lparr>at_ms = 900, pos = 100\<rparr>, Fin 60)]
   \<and> successively (\<lambda>x y. \<not> line_end y - line_start x < 1000)
        (merge_loop 0 [(\<lparr>at_ms = 0, pos = 0\<rparr>, \<lparr>at_ms = 300, pos = 100\<rparr>, Fin 30),
                    (\<lparr>at_ms = 300, pos = 100\<rparr>, \<lparr>at_ms = 600, pos = 0\<rparr>, Fin 60),
                    (\<lparr>at_ms = 600, pos = 0\<rparr>, \<lparr>at_ms = 900, pos = 100\<rparr>, Fin 90)])"
proof -
  have o: "time_ordered [(\<lparr>at_ms = 0, pos = 0\<rparr>, \<lparr>at_ms = 300, pos = 100\<rparr>, Fin 30),
                    (\<lparr>at_ms = 300, pos = 100\<rparr>, \<lparr>at_ms = 600, pos = 0\<rparr>, Fin 60),
                    (\<lparr>at_ms = 600, pos = 0\<rparr>, \<lparr>at_ms = 900, pos = 100\<rparr>, Fin 90)]"
    by (simp add: time_ordered_def line_start_def line_end_def)
  show ?thesis
    using merge_loop_scans_and_cascades
      [where e = "(\<lparr>at_ms = 0, pos = 0\<rparr>, \<lparr>at_ms = 300, pos = 100\<rparr>, Fin 30)"
         and f = "(\<lparr>at_ms = 300, pos = 100\<rparr>, \<lparr>at_ms = 600, pos = 0\<rparr>, Fin 60)"
         and r = "[(\<lparr>at_ms = 600, pos = 0\<rparr>, \<lparr>at_ms = 900, pos = 100\<rparr>, Fin 90)]"
         and a = "\<lparr>at_ms = 0, pos = 0\<rparr>" and b = "\<lparr>at_ms = 400, pos = 100\<rparr>"
         and c = "\<lparr>at_ms = 400, pos = 100\<rparr>" and d = "\<lparr>at_ms = 800, pos = 0\<rparr>"
         and ab = 20 and cd = 60
         and ls = "[(\<lparr>at_ms = 0, pos = 0\<rparr>, \<lparr>at_ms = 300, pos = 100\<rparr>, Fin 30),
                    (\<lparr>at_ms = 300, pos = 100\<rparr>, \<lparr>at_ms = 600, pos = 0\<rparr>, Fin 60),
                    (\<lparr>at_ms = 600, pos = 0\<rparr>, \<lparr>at_ms = 900, pos = 100\<rparr>, Fin 90)]"]
      merge_loop_scans_and_cascades
      [where e = "(\<lparr>at_ms = 0, pos = 0\<rparr>, \<lparr>at_ms = 600, pos = 0\<rparr>, Fin 45)"
         and f = "(\<lparr>at_ms = 600, pos = 0\<rparr>, \<lparr>at_ms = 900, pos = 100\<rparr>, Fin 90)" and r = "[]"]
      o
    by (simp add: line_start_def line_end_def merged_speed_def merge_loop_single)
qed

text \<open>
  Claim C6.  The redundancy filter of the stop compressor (drop an entry whose speed
  equals the speed of both neighbours, keep the first and the last entry) is
  idempotent: on every list of speed-tagged entries, filtering twice gives the same
  list as filtering once.
\<close>

theorem redundancy_filter_idempotent:
  "redundancy_filter speed (redundancy_filter speed xs) = redundancy_filter speed xs"
proof -
  have "map run_ends (map run_ends (runs speed xs)) = map run_ends (runs speed xs)"
    by (simp add: run_ends_idem)
  then show ?thesis
    by (simp only: redundancy_filter_runs runs_ends_runs)
qed




text \<open>
  Claim C8.  When the input segments are ordered ascending by time and the duration is
  positive, the offsets of the output stops (the stop time divided by the duration,
  clamped to \<open>[0, 1]\<close> and rounded to two decimals) are non-decreasing from the first
  stop to the last.
\<close>

theorem gradient_offsets_nondecreasing:
  assumes "time_ordered zigzag" and "0 < duration"
  shows "sorted_wrt js_le (map offset (toSvgBackgroundGradient hex zigzag duration))"
proof -
  have "sorted_wrt (\<lambda>s t. js_le (offset (render_stop hex duration s)) (offset (render_stop hex duration t)))
          (gradient_stops zigzag duration)"
  proof (rule sorted_wrt_mono_rel [of _ "\<lambda>s t. stop_at s \<le> stop_at t"])
    fix s t :: stop
    assume "stop_at s \<le> stop_at t"
    then have "stop_at s / duration \<le> stop_at t / duration"
      using assms(2) by (simp add: divide_right_mono)
    then have "min 1 (stop_at s / duration) \<le> min 1 (stop_at t / duration)"
      by (intro min.mono) simp_all
    then have "max 0 (min 1 (stop_at s / duration)) \<le> max 0 (min 1 (stop_at t / duration))"
      by (intro max.mono) simp_all
    then show "js_le (offset (render_stop hex duration s)) (offset (render_stop hex duration t))"
      using assms(2) by (simp add: offset_render_stop round2_mono)
  next
    show "sorted_wrt (\<lambda>s t. stop_at s \<le> stop_at t) (gradient_stops zigzag duration)"
      using assms(1) by (rule gradient_stops_sorted)
  qed
  then show ?thesis
    by (simp add: toSvgBackgroundGradient_def sorted_wrt_map)
qed

theorem gradient_offsets_nondecreasing_witness:
  "time_ordered [(\<lparr>at_ms = 5000, pos = 0\<rparr>, \<lparr>at_ms = 5500, pos = 100\<rparr>, Fin 50)]
   \<and> (0::real) < 10000
   \<and> sorted_wrt js_le (map offset (toSvgBackgroundGradient (\<lambda>s. [])
         [(\<lparr>at_ms = 5000, pos = 0\<rparr>, \<lparr>at_ms = 5500, pos = 100\<rparr>, Fin 50)] 10000))
   \<and> map offset (toSvgBackgroundGradient (\<lambda>s. [])
         [(\<lparr>at_ms = 5000, pos = 0\<rparr>, \<lparr>at_ms = 5500, pos = 100\<rparr>, Fin 50)] 10000)
       = [Fin (49 / 100), Fin (1 / 2), Fin (11 / 20), Fin (14 / 25)]"
proof -
  have o: "time_ordered [(\<lparr>at_ms = 5000, pos = 0\<rparr>, \<lparr>at_ms = 5500, pos = 100\<rparr>, Fin 50)]"
    by (simp add: time_ordered_def line_start_def line_end_def)
  have d: "(0::real) < 10000" by simp
  have g: "gradient_stops [(\<lparr>at_ms = 5000, pos = 0\<rparr>, \<lparr>at_ms = 5500, pos = 100\<rparr>, Fin 50)] 10000
    = [\<lparr>stop_at = 4900, stop_speed = Fin 0\<rparr>, \<lparr>stop_at = 5000, stop_speed = Fin 50\<rparr>,
       \<lparr>stop_at = 5500, stop_speed = Fin 50\<rparr>, \<lparr>stop_at = 5600, stop_speed = Fin 0\<rparr>]"
    by (simp add: eval_defs)
  have v: "map offset (toSvgBackgroundGradient (\<lambda>s. [])
         [(\<lparr>at_ms = 5000, pos = 0\<rparr>, \<lparr>at_ms = 5500, pos = 100\<rparr>, Fin 50)] 10000)
       = [Fin (49 / 100), Fin (1 / 2), Fin (11 / 20), Fin (14 / 25)]"
    by (simp add: toSvgBackgroundGradient_def render_stop_def g js_min_def js_max_def round2_def)
  show ?thesis
    using gradient_offsets_nondecreasing [OF o d, of "\<lambda>s. []"] o v by simp
qed

text \<open>
  Claim C9.  The stroke paths are returned in ascending order of the speed of their
  segments, whatever the time order of the segments: the result is the image of a
  rearrangement of the input that is sorted by speed.  Segments of the speeds 10, 90
  and 5, in this time order, give the strokes of the speeds 5, 10 and 90.
\<close>

theorem toSvgLines_sorted_by_speed:
  "(\<exists>ys. mset ys = mset lines \<and> sorted (map (\<lambda>e. snd (snd e)) ys)
         \<and> toSvgLines hex ops ctx lines = map (line_path hex ops ctx) ys)
   \<and> map stroke (toSvgLines hex ops ctx [(a1, b1, 10), (a2, b2, 90), (a3, b3, 5)])
       = [hex 5, hex 10, hex 90]"
proof -
  let ?ys = "js_sort (\<lambda>a b. snd (snd a) - snd (snd b)) lines"
  have "mset ?ys = mset lines" by (rule mset_js_sort)
  moreover have "sorted (map (\<lambda>e. snd (snd e)) ?ys)"
    by (rule sorted_js_sort)
  moreover have "toSvgLines hex ops ctx lines = map (line_path hex ops ctx) ?ys"
    by (simp add: toSvgLines_def)
  ultimately have 1: "\<exists>ys. mset ys = mset lines \<and> sorted (map (\<lambda>e. snd (snd e)) ys)
         \<and> toSvgLines hex ops ctx lines = map (line_path hex ops ctx) ys"
    by blast
  have 2: "map stroke (toSvgLines hex ops ctx [(a1, b1, 10), (a2, b2, 90), (a3, b3, 5)])
       = [hex 5, hex 10, hex 90]"
    by (simp add: toSvgLines_def js_sort_def line_path_def)
  show ?thesis using 1 2 by simp
qed

text \<open>
  Claim C10.  Both filters of the gradient synthesis are \<open>redundancy_filter\<close>, on the
  lines and on the stops; its callback reads the neighbours of an entry in the list
  being filtered.  So one pass replaces every maximal run of two or more consecutive
  entries of equal speed by the first and the last entry of the run and keeps a run of
  one entry: \<open>runs\<close> splits the list into its maximal runs, the filtered list is the
  concatenation of the ends of these runs, and no run of the filtered list is longer
  than two.
\<close>

theorem redundancy_filter_keeps_run_ends:
  "concat (runs speed xs) = xs
   \<and> redundancy_filter speed xs = concat (map run_ends (runs speed xs))
   \<and> (\<forall>r \<in> set (runs speed (redundancy_filter speed xs)). length r \<le> 2)"
  using concat_runs [of speed xs] redundancy_filter_runs [of speed xs]
    runs_filter_short [of _ speed xs] by blast

theorem redundancy_filter_keeps_run_ends_witness:
  "redundancy_filter stop_speed
     [\<lparr>stop_at = 1, stop_speed = Fin 5\<rparr>, \<lparr>stop_at = 2, stop_speed = Fin 5\<rparr>,
      \<lparr>stop_at = 3, stop_speed = Fin 5\<rparr>, \<lparr>stop_at = 4, stop_speed = Fin 5\<rparr>,
      \<lparr>stop_at = 5, stop_speed = Fin 7\<rparr>]
   = [\<lparr>stop_at = 1, stop_speed = Fin 5\<rparr>, \<lparr>stop_at = 4, stop_speed = Fin 5\<rparr>,
      \<lparr>stop_at = 5, stop_speed = Fin 7\<rparr>]
   \<and> [\<lparr>stop_at = 1, stop_speed = Fin 5\<rparr>, \<lparr>stop_at = 4, stop_speed = Fin 5\<rparr>]
       \<in> set (runs stop_speed (redundancy_filter stop_speed
         [\<lparr>stop_at = 1, stop_speed = Fin 5\<rparr>, \<lparr>stop_at = 2, stop_speed = Fin 5\<rparr>,
          \<lparr>stop_at = 3, stop_speed = Fin 5\<rparr>, \<lparr>stop_at = 4, stop_speed = Fin 5\<rparr>,
          \<lparr>stop_at = 5, stop_speed = Fin 7\<rparr>]))
   \<and> length [\<lparr>stop_at = 1, stop_speed = Fin 5\<rparr>, \<lparr>stop_at = 4, stop_speed = Fin (5::real)\<rparr>] \<le> 2"
  using redundancy_filter_keeps_run_ends [of stop_speed
     "[\<lparr>stop_at = 1, stop_speed = Fin 5\<rparr>, \<lparr>stop_at = 2, stop_speed = Fin 5\<rparr>,
      \<lparr>stop_at = 3, stop_speed = Fin 5\<rparr>, \<lparr>stop_at = 4, stop_speed = Fin 5\<rparr>,
      \<lparr>stop_at = 5, stop_speed = Fin 7\<rparr>]"]
  by (simp add: runs_step runs_single)

end
